theory Spec2Isabelle
  imports Main "HOL-Library.Word" "HOL-Library.AList"
begin

unbundle bit_operations_syntax

section \<open>Frames\<close>

text \<open>
  The compositor of \<^verbatim>\<open>SoftVideoCompositor.cpp\<close> never looks inside a pixel buffer in the
  parts verified here, so the buffer type is a parameter \<open>'b\<close>. Sync timestamps are
  \<^verbatim>\<open>int64_t\<close>: 64-bit words read in two's complement (\<open><s\<close>, \<open>\<le>s\<close>, \<open>sint\<close>);
  frame rates and counters are \<^verbatim>\<open>uint32_t\<close>: 32-bit words whose arithmetic wraps.
\<close>

type_synonym int64_t = "64 word"
type_synonym uint32_t = "32 word"

text \<open>
  Modelled from the spec: \<^verbatim>\<open>owt_base::FrameFormat\<close> is declared in a header that is not
  part of the sources; only \<^verbatim>\<open>FRAME_FORMAT_I420\<close> is named by the code, the other
  constructors stand for any other format.
\<close>

datatype FrameFormat =
    FRAME_FORMAT_UNKNOWN
  | FRAME_FORMAT_I420
  | FRAME_FORMAT_VP8
  | FRAME_FORMAT_H264

text \<open>\<^verbatim>\<open>owt_base::Frame\<close>, the fields read by \<^verbatim>\<open>SoftInput::pushInput\<close>.\<close>

record 'b Frame =
  frame_format :: FrameFormat
  frame_payload :: 'b
  frame_timeStamp :: uint32_t
  frame_sync_enabled :: bool
  frame_sync_timeStamp :: int64_t

text \<open>\<^verbatim>\<open>SoftInputFrame\<close>: a pooled buffer with the three timestamps of the pushed frame.\<close>

record 'b SoftInputFrame =
  buffer :: 'b
  timeStamp :: uint32_t
  sync_enabled :: bool
  sync_timeStamp :: int64_t

text \<open>
  \<^verbatim>\<open>webrtc::VideoFrame(buffer, kVideoRotation_0, 0)\<close>: rotation and timestamp are the
  constants of the call sites, the buffer is the only varying field.
\<close>

datatype 'b VideoFrame = VideoFrame (video_frame_buffer: 'b)

datatype error = AssertionFailure | IndexOutOfRange | DivisionByZero

section \<open>SoftInput: the bounded input queue\<close>

text \<open>
  Modelled from the spec: \<^verbatim>\<open>kMaxQueueSize\<close> is a constant of the missing header
  \<^verbatim>\<open>SoftVideoCompositor.h\<close>; the specification fixes it as 5. No general proof below
  unfolds its value.
\<close>

definition kMaxQueueSize :: nat where
  "kMaxQueueSize = 5"

record 'b SoftInput =
  m_active :: bool
  m_sync_enabled :: bool
  m_frame_sync_enabled :: bool
  m_frame_queue :: "'b SoftInputFrame list"

text \<open>The constructor: inactive, sync enabled, no frame seen yet, empty queue.\<close>

definition SoftInput_new :: "'b SoftInput" where
  "SoftInput_new =
     \<lparr>m_active = False, m_sync_enabled = True, m_frame_sync_enabled = False,
      m_frame_queue = []\<rparr>"

definition setActive :: "'b SoftInput \<Rightarrow> bool \<Rightarrow> 'b SoftInput" where
  "setActive inp active =
     (let inp1 = inp\<lparr>m_active := active\<rparr>
      in if \<not> m_active inp1 then inp1\<lparr>m_frame_queue := []\<rparr> else inp1)"

definition isActive :: "'b SoftInput \<Rightarrow> bool" where
  "isActive inp = m_active inp"

text \<open>
  What \<^verbatim>\<open>pushInput\<close> gets from its collaborators: whether the buffer pool hands out a
  free buffer (\<^verbatim>\<open>getFreeBuffer\<close> returns non-null) and whether the converter succeeds.
  The pooled copy carries the pixels of the source, so the enqueued buffer is the payload.
\<close>

record push_env =
  free_buffer :: bool
  convert_ok :: bool

text \<open>
  \<^verbatim>\<open>pushInput\<close>. The first argument tells whether the build defines \<^verbatim>\<open>NDEBUG\<close>: with
  assertions compiled in, a frame that is not I420 aborts the process; without them the
  \<^verbatim>\<open>assert\<close> is no code at all and the frame is handled like any other. The two locked
  sections of the source follow one another; the second re-tests \<^verbatim>\<open>m_active\<close>.
\<close>

definition pushInput ::
  "bool \<Rightarrow> push_env \<Rightarrow> 'b SoftInput \<Rightarrow> 'b Frame \<Rightarrow> error + 'b SoftInput" where
  "pushInput ndebug env inp frame =
     (if \<not> ndebug \<and> frame_format frame \<noteq> FRAME_FORMAT_I420 then Inl AssertionFailure
      else if \<not> m_active inp then Inr inp
      else
        let inp1 =
              (if length (m_frame_queue inp) = kMaxQueueSize
               then inp\<lparr>m_frame_queue := [], m_sync_enabled := False\<rparr>
               else inp)
        in if \<not> free_buffer env then Inr inp1
           else if \<not> convert_ok env then Inr inp1
           else if m_active inp1 then
             let inputFrame =
                   \<lparr>buffer = frame_payload frame,
                    timeStamp = frame_timeStamp frame,
                    sync_enabled = frame_sync_enabled frame,
                    sync_timeStamp = frame_sync_timeStamp frame\<rparr>;
                 inp2 = inp1\<lparr>m_frame_sync_enabled := frame_sync_enabled frame\<rparr>;
                 inp3 =
                   (if \<not> m_sync_enabled inp2 \<or> \<not> m_frame_sync_enabled inp2
                    then inp2\<lparr>m_frame_queue := []\<rparr>
                    else inp2)
             in Inr (inp3\<lparr>m_frame_queue := m_frame_queue inp3 @ [inputFrame]\<rparr>)
           else Inr inp1)"

definition popInput :: "'b SoftInput \<Rightarrow> 'b VideoFrame option \<times> 'b SoftInput" where
  "popInput inp =
     (if \<not> m_active inp then (None, inp)
      else if m_frame_queue inp = [] then (None, inp)
      else
        let inputFrame = hd (m_frame_queue inp);
            inp1 =
              (if 1 < length (m_frame_queue inp)
               then inp\<lparr>m_frame_queue := tl (m_frame_queue inp)\<rparr>
               else inp)
        in (Some (VideoFrame (buffer inputFrame)), inp1))"

definition front :: "'b SoftInput \<Rightarrow> 'b SoftInputFrame option" where
  "front inp =
     (if \<not> m_active inp then None
      else if m_frame_queue inp = [] then None
      else Some (hd (m_frame_queue inp)))"

definition "back" :: "'b SoftInput \<Rightarrow> 'b SoftInputFrame option" where
  "back inp =
     (if \<not> m_active inp then None
      else if m_frame_queue inp = [] then None
      else Some (last (m_frame_queue inp)))"

text \<open>
  The \<^verbatim>\<open>while (true)\<close> loop of \<^verbatim>\<open>get_sync_frame\<close>: leave when the front is at or after
  the target, leave when one frame is left, otherwise pop the front and go on. Each round
  shortens the queue, so the recursion is structural. The loop is entered with a
  non-empty queue only; on the empty queue the function is the identity.
\<close>

fun sync_loop :: "int64_t \<Rightarrow> 'b SoftInputFrame list \<Rightarrow> 'b SoftInputFrame list" where
  "sync_loop target [] = []"
| "sync_loop target (f # fs) =
     (if target \<le>s sync_timeStamp f then f # fs
      else if length (f # fs) = 1 then f # fs
      else sync_loop target fs)"

definition get_sync_frame ::
  "'b SoftInput \<Rightarrow> int64_t \<Rightarrow> 'b SoftInputFrame option \<times> 'b SoftInput" where
  "get_sync_frame inp target =
     (if \<not> m_active inp then (None, inp)
      else if m_frame_queue inp = [] then (None, inp)
      else if target = - 1 then (Some (hd (m_frame_queue inp)), inp)
      else
        let inp1 = inp\<lparr>m_frame_queue := sync_loop target (m_frame_queue inp)\<rparr>
        in (Some (hd (m_frame_queue inp1)), inp1))"

definition isSyncEnabled :: "'b SoftInput \<Rightarrow> bool" where
  "isSyncEnabled inp = (m_sync_enabled inp \<and> m_frame_sync_enabled inp)"

text \<open>
  The calls a client can make on one input, for statements about every sequence of calls.
  The values the read-only calls return are dropped; an assertion failure ends the run.
\<close>

datatype 'b input_op =
    SetActive bool
  | PushInput bool push_env "'b Frame"
  | PopInput
  | Front
  | Back
  | GetSyncFrame int64_t
  | IsSyncEnabled

fun apply_op :: "'b SoftInput \<Rightarrow> 'b input_op \<Rightarrow> error + 'b SoftInput" where
  "apply_op inp (SetActive a) = Inr (setActive inp a)"
| "apply_op inp (PushInput ndebug env frame) = pushInput ndebug env inp frame"
| "apply_op inp PopInput = Inr (snd (popInput inp))"
| "apply_op inp Front = Inr inp"
| "apply_op inp Back = Inr inp"
| "apply_op inp (GetSyncFrame target) = Inr (snd (get_sync_frame inp target))"
| "apply_op inp IsSyncEnabled = Inr inp"

fun run_ops :: "'b SoftInput \<Rightarrow> 'b input_op list \<Rightarrow> error + 'b SoftInput" where
  "run_ops inp [] = Inr inp"
| "run_ops inp (x # xs) =
     (case apply_op inp x of Inl e \<Rightarrow> Inl e | Inr inp' \<Rightarrow> run_ops inp' xs)"

section \<open>AvatarManager: the placeholder image cache\<close>

text \<open>
  The two \<^verbatim>\<open>std::map\<close>s are association lists with \<open>map_of\<close> as \<^verbatim>\<open>find\<close>,
  \<open>AList.update\<close> as \<^verbatim>\<open>operator[]\<close> assignment and \<open>AList.delete\<close> as \<^verbatim>\<open>erase\<close>. A
  cached frame is a \<^verbatim>\<open>shared_ptr\<close> that may be null: \<open>Some None\<close> in the lookup is a
  cached null pointer, \<open>None\<close> is no entry.

  \<open>getAvatarFrame\<close> takes the loader it calls on a cache miss as an argument: for the
  code that is \<open>loadImage\<close> on the file system as it is at the time of the call, so a
  file that changes between two calls is two loaders.
\<close>

type_synonym uint8_t = "8 word"

type_synonym 'b loader = "string \<Rightarrow> 'b VideoFrame option"

text \<open>
  \<open>loadImage\<close> and \<open>getImageSize\<close>. The file system maps a path to the bytes of the
  file, \<open>None\<close> when it cannot be opened; \<^verbatim>\<open>tellg\<close> then returns \<open>- 1\<close>, which the
  \<^verbatim>\<open>uint32_t size\<close> holds as \<open>2 ^ 32 - 1\<close>. \<^verbatim>\<open>I420Buffer::Copy\<close> is a parameter.
\<close>

text \<open>
  \<^verbatim>\<open>std::string::find(ch, pos)\<close>: the first position at or after \<open>pos\<close> that holds \<open>ch\<close>;
  \<open>None\<close> is \<^verbatim>\<open>npos\<close>.
\<close>

definition find_from :: "char \<Rightarrow> nat \<Rightarrow> string \<Rightarrow> nat option" where
  "find_from ch pos s =
     (if pos \<le> length s \<and> ch \<in> set (drop pos s)
      then Some (pos + length (takeWhile (\<lambda>c. c \<noteq> ch) (drop pos s)))
      else None)"

definition isspace :: "char \<Rightarrow> bool" where
  "isspace c \<longleftrightarrow> c \<in> set [CHR '' '', CHR 0x09, CHR 0x0A, CHR 0x0B, CHR 0x0C, CHR 0x0D]"

definition isdigit :: "char \<Rightarrow> bool" where
  "isdigit c \<longleftrightarrow> c \<in> set ''0123456789''"

text \<open>
  \<^verbatim>\<open>strtol(nptr, &str_end, 10)\<close> on the C string that starts at \<open>s\<close>: white space, an
  optional sign, decimal digits. The result is the value, clamped to the range of a
  64-bit \<^verbatim>\<open>long\<close>, and the number of characters consumed; with no digit nothing is
  consumed and the value is 0.
\<close>

definition strtol :: "string \<Rightarrow> int \<times> nat" where
  "strtol s =
     (let cstr = takeWhile (\<lambda>c. c \<noteq> CHR 0x00) s;
          ws = takeWhile isspace cstr;
          s1 = drop (length ws) cstr;
          neg = (s1 \<noteq> [] \<and> hd s1 = CHR ''-'');
          sl = (if s1 \<noteq> [] \<and> (hd s1 = CHR ''-'' \<or> hd s1 = CHR ''+'') then 1 else 0);
          ds = takeWhile isdigit (drop sl s1);
          v = foldl (\<lambda>a c. a * 10 + (int (of_char c) - 48)) 0 ds
      in if ds = [] then (0, 0)
         else (max (- (2 ^ 63)) (min (2 ^ 63 - 1) (if neg then - v else v)),
               length ws + sl + length ds))"

definition getImageSize :: "string \<Rightarrow> (uint32_t \<times> uint32_t) option" where
  "getImageSize url =
     (case find_from CHR ''.'' 0 url of
        None \<Rightarrow> None
      | Some begin0 \<Rightarrow>
          (case find_from CHR ''x'' begin0 url of
             None \<Rightarrow> None
           | Some end1 \<Rightarrow>
               (case strtol (drop (begin0 + 1) url) of
                  (w, n) \<Rightarrow>
                    if begin0 + 1 + n \<noteq> end1 then None
                    else
                      (case find_from CHR ''.'' end1 url of
                         None \<Rightarrow> None
                       | Some end2 \<Rightarrow>
                           (case strtol (drop (end1 + 1) url) of
                              (h, m) \<Rightarrow>
                                if end1 + 1 + m \<noteq> end2 then None
                                else Some (word_of_int w, word_of_int h))))))"

type_synonym file_system = "string \<Rightarrow> 8 word list option"

definition loadImage ::
  "(uint32_t \<Rightarrow> uint32_t \<Rightarrow> 8 word list \<Rightarrow> 'b) \<Rightarrow> file_system \<Rightarrow> 'b loader" where
  "loadImage I420Copy fs url =
     (case getImageSize url of
        None \<Rightarrow> None
      | Some (w, h) \<Rightarrow>
          let size :: uint32_t = (case fs url of None \<Rightarrow> - 1 | Some bytes \<Rightarrow> of_nat (length bytes))
          in if size \<le> 0 \<or> (w * h * 3 + 1) div 2 \<noteq> size then None
             else Some (VideoFrame (I420Copy w h
                    (case fs url of None \<Rightarrow> [] | Some bytes \<Rightarrow> take (unat size) bytes))))"

record 'b AvatarManager =
  m_avatar_inputs :: "(uint8_t \<times> string) list"
  m_avatar_frames :: "(string \<times> 'b VideoFrame option) list"

definition AvatarManager_new :: "'b AvatarManager" where
  "AvatarManager_new = \<lparr>m_avatar_inputs = [], m_avatar_frames = []\<rparr>"



definition getAvatarFrame ::
  "'b loader \<Rightarrow> 'b AvatarManager \<Rightarrow> uint8_t \<Rightarrow> 'b VideoFrame option \<times> 'b AvatarManager" where
  "getAvatarFrame load am index =
     (case map_of (m_avatar_inputs am) index of
        None \<Rightarrow> (None, am)
      | Some url \<Rightarrow>
          (case map_of (m_avatar_frames am) url of
             Some cached \<Rightarrow> (cached, am)
           | None \<Rightarrow>
               let frame = load url
               in (frame, am\<lparr>m_avatar_frames := AList.update url frame (m_avatar_frames am)\<rparr>)))"






section \<open>SoftFrameGenerator: frame rates, outputs and the tick counter\<close>

record 'd Output_t =
  output_width :: uint32_t
  output_height :: uint32_t
  output_fps :: uint32_t
  output_dest :: 'd

record 'd SoftFrameGenerator =
  m_maxSupportedFps :: uint32_t
  m_minSupportedFps :: uint32_t
  m_counter :: uint32_t
  m_counterMax :: uint32_t
  m_outputs :: "'d Output_t list list"

text \<open>
  The doubling loop of the constructor. \<^verbatim>\<open>fps *= 2\<close> wraps modulo \<open>2 ^ 32\<close>, and a value
  that has wrapped to 0 never leaves the loop, so the loop need not return: \<open>None\<close> is
  the run that does not end.
\<close>

partial_function (option) fps_loop :: "uint32_t \<Rightarrow> uint32_t \<Rightarrow> uint32_t option" where
  "fps_loop maxFps fps =
     (if fps \<le> maxFps
      then (if fps = maxFps then Some fps else fps_loop maxFps (fps * 2))
      else Some fps)"

text \<open>
  The constructor, as far as the frame-rate fields go. \<^verbatim>\<open>m_maxSupportedFps /
  m_minSupportedFps\<close> with a zero divisor is undefined behaviour in C++ (a trap on the
  usual targets): the error \<open>DivisionByZero\<close>.
\<close>

definition SoftFrameGenerator_new ::
  "uint32_t \<Rightarrow> uint32_t \<Rightarrow> (error + 'd SoftFrameGenerator) option" where
  "SoftFrameGenerator_new maxFps minFps =
     (case fps_loop maxFps minFps of
        None \<Rightarrow> None
      | Some fps \<Rightarrow>
          let maxSupported = (if maxFps < fps then minFps else maxFps)
          in if minFps = 0 then Some (Inl DivisionByZero)
             else Some (Inr
               \<lparr>m_maxSupportedFps = maxSupported,
                m_minSupportedFps = minFps,
                m_counter = 0,
                m_counterMax = maxSupported div minFps,
                m_outputs = replicate (unat (maxSupported div minFps)) []\<rparr>))"

partial_function (option) isSupported_loop ::
  "uint32_t \<Rightarrow> uint32_t \<Rightarrow> uint32_t \<Rightarrow> bool option" where
  "isSupported_loop maxFps fps n =
     (if n \<le> maxFps
      then (if n = fps then Some True else isSupported_loop maxFps fps (n * 2))
      else Some False)"

definition isSupported ::
  "'d SoftFrameGenerator \<Rightarrow> uint32_t \<Rightarrow> uint32_t \<Rightarrow> uint32_t \<Rightarrow> bool option" where
  "isSupported g w h f =
     (if m_maxSupportedFps g < f \<or> f < m_minSupportedFps g then Some False
      else isSupported_loop (m_maxSupportedFps g) f (m_minSupportedFps g))"

text \<open>
  \<^verbatim>\<open>addOutput\<close>. With assertions compiled in (\<open>ndebug\<close> false) the call evaluates
  \<open>isSupported\<close> first. \<^verbatim>\<open>int index = m_maxSupportedFps / fps - 1\<close> is computed in
  \<^verbatim>\<open>uint32_t\<close>, so a quotient of 0 wraps; an index outside the vector is undefined
  behaviour in C++: the error \<open>IndexOutOfRange\<close>.
\<close>

definition addOutput ::
  "bool \<Rightarrow> 'd SoftFrameGenerator \<Rightarrow> uint32_t \<Rightarrow> uint32_t \<Rightarrow> uint32_t \<Rightarrow> 'd
     \<Rightarrow> (error + bool \<times> 'd SoftFrameGenerator) option" where
  "addOutput ndebug g w h f dst =
     (case (if ndebug then Some True else isSupported g w h f) of
        None \<Rightarrow> None
      | Some False \<Rightarrow> Some (Inl AssertionFailure)
      | Some True \<Rightarrow>
          if f = 0 then Some (Inl DivisionByZero)
          else
            let index = unat (m_maxSupportedFps g div f - 1);
                output = \<lparr>output_width = w, output_height = h, output_fps = f, output_dest = dst\<rparr>
            in if length (m_outputs g) \<le> index then Some (Inl IndexOutOfRange)
               else Some (Inr (True,
                 g\<lparr>m_outputs := (m_outputs g)[index := m_outputs g ! index @ [output]]\<rparr>)))"

text \<open>
  The two loops of \<^verbatim>\<open>onTimeout\<close> over the buckets, with the bucket index \<open>i\<close> carried
  along: bucket \<open>i\<close> is due when \<^verbatim>\<open>m_counter % (i + 1)\<close> is 0. The index stays below the
  vector's size, which came from a \<^verbatim>\<open>uint32_t\<close>, so \<open>i + 1\<close> does not wrap.
\<close>

fun hasValidOutput :: "nat \<Rightarrow> uint32_t \<Rightarrow> 'o list list \<Rightarrow> bool" where
  "hasValidOutput i counter [] = False"
| "hasValidOutput i counter (bucket # rest) =
     (if unat counter mod (i + 1) \<noteq> 0 then hasValidOutput (i + 1) counter rest
      else if 0 < length bucket then True
      else hasValidOutput (i + 1) counter rest)"

fun deliverFrame :: "nat \<Rightarrow> uint32_t \<Rightarrow> 'o list list \<Rightarrow> 'o list" where
  "deliverFrame i counter [] = []"
| "deliverFrame i counter (bucket # rest) =
     (if unat counter mod (i + 1) \<noteq> 0 then deliverFrame (i + 1) counter rest
      else bucket @ deliverFrame (i + 1) counter rest)"

text \<open>
  \<^verbatim>\<open>onTimeout\<close>. The second argument is what \<^verbatim>\<open>generateFrame\<close> returns if it is called
  (null when no composite buffer is free). The result lists the outputs whose
  \<^verbatim>\<open>dest->onFrame\<close> was called, in call order, each with the frame it got.
\<close>

definition onTimeout ::
  "'d SoftFrameGenerator \<Rightarrow> 'b VideoFrame option
     \<Rightarrow> error + ('d Output_t \<times> 'b VideoFrame) list \<times> 'd SoftFrameGenerator" where
  "onTimeout g generateFrame =
     (let delivered =
            (if hasValidOutput 0 (m_counter g) (m_outputs g)
             then (case generateFrame of
                     None \<Rightarrow> []
                   | Some compositeFrame \<Rightarrow>
                       map (\<lambda>it. (it, compositeFrame))
                         (deliverFrame 0 (m_counter g) (m_outputs g)))
             else [])
      in if m_counterMax g = 0 then Inl DivisionByZero
         else Inr (delivered, g\<lparr>m_counter := (m_counter g + 1) mod m_counterMax g\<rparr>))"

text \<open>A run of ticks, one \<^verbatim>\<open>generateFrame\<close> outcome per tick; the deliveries of each tick.\<close>

fun ticks ::
  "'d SoftFrameGenerator \<Rightarrow> 'b VideoFrame option list
     \<Rightarrow> error + ('d Output_t \<times> 'b VideoFrame) list list \<times> 'd SoftFrameGenerator" where
  "ticks g [] = Inr ([], g)"
| "ticks g (c # cs) =
     (case onTimeout g c of
        Inl e \<Rightarrow> Inl e
      | Inr (ds, g') \<Rightarrow>
          (case ticks g' cs of
             Inl e \<Rightarrow> Inl e
           | Inr (dss, g'') \<Rightarrow> Inr (ds # dss, g'')))"

text \<open>
  The state a generator is in when its band is an exact power of two: what the
  constructor sets up and \<open>addOutput\<close> and \<open>onTimeout\<close> keep. Every output sits in the
  bucket of its own period.
\<close>

definition generator_inv :: "'d SoftFrameGenerator \<Rightarrow> bool" where
  "generator_inv g \<longleftrightarrow>
     0 < unat (m_minSupportedFps g)
     \<and> (\<exists>k. unat (m_maxSupportedFps g) = unat (m_minSupportedFps g) * 2 ^ k)
     \<and> m_counterMax g = m_maxSupportedFps g div m_minSupportedFps g
     \<and> length (m_outputs g) = unat (m_counterMax g)
     \<and> unat (m_counter g) < unat (m_counterMax g)
     \<and> (\<forall>i < length (m_outputs g). \<forall>out \<in> set (m_outputs g ! i).
          (\<exists>j. unat (output_fps out) = unat (m_minSupportedFps g) * 2 ^ j)
          \<and> output_fps out \<le> m_maxSupportedFps g
          \<and> unat (m_maxSupportedFps g div output_fps out) = i + 1)"

text \<open>
  The outputs that sit in a bucket which is due on the \<open>n\<close>-th tick after the state
  \<open>g\<close>: the counter has then advanced \<open>n\<close> times by one modulo \<open>m_counterMax\<close>, and
  bucket \<open>i\<close> is due when that counter is a multiple of \<open>i + 1\<close>.
\<close>

definition due_outputs :: "'d SoftFrameGenerator \<Rightarrow> nat \<Rightarrow> 'd Output_t set" where
  "due_outputs g n =
     {out. \<exists>i < length (m_outputs g). out \<in> set (m_outputs g ! i)
        \<and> ((unat (m_counter g) + n) mod unat (m_counterMax g)) mod (i + 1) = 0}"

text \<open>The frame rates the specification allows for a band, as a set of numbers.\<close>

definition supported_fps :: "nat \<Rightarrow> nat \<Rightarrow> nat set" where
  "supported_fps maxFps minFps = {f. \<exists>k. f = minFps * 2 ^ k \<and> f \<le> maxFps}"

section \<open>SoftVideoCompositor: one composition pass\<close>

record 'b SoftVideoCompositor =
  m_inputs :: "'b SoftInput list"
  m_avatarManager :: "'b AvatarManager"

text \<open>
  \<^verbatim>\<open>m_inputs[index]\<close> outside the vector is undefined behaviour in C++: the error
  \<open>IndexOutOfRange\<close>. The avatar manager takes the index as \<^verbatim>\<open>uint8_t\<close>.
\<close>

definition getInputFrame ::
  "'b loader \<Rightarrow> 'b SoftVideoCompositor \<Rightarrow> nat
     \<Rightarrow> error + 'b VideoFrame option \<times> 'b SoftVideoCompositor" where
  "getInputFrame load c index =
     (if length (m_inputs c) \<le> index then Inl IndexOutOfRange
      else
        let inp = m_inputs c ! index
        in if isActive inp then
             (case popInput inp of
                (src, inp') \<Rightarrow> Inr (src, c\<lparr>m_inputs := (m_inputs c)[index := inp']\<rparr>))
           else
             (case getAvatarFrame load (m_avatarManager c) (of_nat index) of
                (src, am') \<Rightarrow> Inr (src, c\<lparr>m_avatarManager := am'\<rparr>)))"

definition getSyncInputFrame ::
  "'b loader \<Rightarrow> 'b SoftVideoCompositor \<Rightarrow> nat \<Rightarrow> int64_t
     \<Rightarrow> error + 'b VideoFrame option \<times> 'b SoftVideoCompositor" where
  "getSyncInputFrame load c index target =
     (if length (m_inputs c) \<le> index then Inl IndexOutOfRange
      else
        let inp = m_inputs c ! index
        in if \<not> isActive inp then
             (case getAvatarFrame load (m_avatarManager c) (of_nat index) of
                (src, am') \<Rightarrow> Inr (src, c\<lparr>m_avatarManager := am'\<rparr>))
           else if \<not> isSyncEnabled inp then
             (case popInput inp of
                (src, inp') \<Rightarrow> Inr (src, c\<lparr>m_inputs := (m_inputs c)[index := inp']\<rparr>))
           else
             (case get_sync_frame inp target of
                (input_frame, inp') \<Rightarrow>
                  Inr (map_option (\<lambda>f. VideoFrame (buffer f)) input_frame,
                       c\<lparr>m_inputs := (m_inputs c)[index := inp']\<rparr>)))"

text \<open>
  Modelled from the spec: the header that declares the layout types is not part of the
  sources. The specification gives a Rational as a pair of 32-bit integers with values
  in [0, 1], a Rect as four Rationals and a layout entry as an input index with its
  region; the code reads \<^verbatim>\<open>region.area.rect\<close> and nothing else of a region. The
  integers are taken as unsigned; for the values the specification allows a signed
  reading widens to the same \<^verbatim>\<open>uint64_t\<close>. The first loop of the pass does not look at
  the region, so the entry leaves its type open.
\<close>

record Rational =
  numerator :: uint32_t
  denominator :: uint32_t

text \<open>
  Modelled from the spec: \<^verbatim>\<open>region.area.rect\<close>, the four Rationals \<^verbatim>\<open>left\<close>, \<^verbatim>\<open>top\<close>,
  \<^verbatim>\<open>width\<close> and \<^verbatim>\<open>height\<close> that the placement code reads.
\<close>

record Rectangle =
  rect_left :: Rational
  rect_top :: Rational
  rect_width :: Rational
  rect_height :: Rational

text \<open>
  Modelled from the spec: an entry of a \<^verbatim>\<open>LayoutSolution\<close>, of which the code reads
  \<^verbatim>\<open>it->input\<close> and \<^verbatim>\<open>it->region\<close>.
\<close>

record 'r InputRegion =
  input :: nat
  region :: 'r

text \<open>
  The two updates in the body of the first loop of \<^verbatim>\<open>layout_regions\<close>:
  \<^verbatim>\<open>if (min == -1 || min < front->sync_timeStamp) min = front->sync_timeStamp\<close> and
  \<^verbatim>\<open>if (max == -1 || max > back->sync_timeStamp) max = back->sync_timeStamp\<close>.
\<close>

definition observe_front :: "int64_t \<Rightarrow> int64_t \<Rightarrow> int64_t" where
  "observe_front min_sync t = (if min_sync = - 1 \<or> min_sync <s t then t else min_sync)"

definition observe_back :: "int64_t \<Rightarrow> int64_t \<Rightarrow> int64_t" where
  "observe_back max_sync t = (if max_sync = - 1 \<or> t <s max_sync then t else max_sync)"

text \<open>
  The first loop of \<^verbatim>\<open>layout_regions\<close>: the running pair
  (\<^verbatim>\<open>min_sync_timeStamp\<close>, \<^verbatim>\<open>max_sync_timeStamp\<close>), started at \<open>(- 1, - 1)\<close>.
\<close>

fun sync_range ::
  "'b SoftVideoCompositor \<Rightarrow> 'r InputRegion list \<Rightarrow> int64_t \<times> int64_t
     \<Rightarrow> error + int64_t \<times> int64_t" where
  "sync_range c [] acc = Inr acc"
| "sync_range c (it # rest) (min_sync, max_sync) =
     (if length (m_inputs c) \<le> input it then Inl IndexOutOfRange
      else
        let inp = m_inputs c ! input it
        in if \<not> isSyncEnabled inp then sync_range c rest (min_sync, max_sync)
           else
             (case (front inp, back inp) of
                (Some front_frame, Some back_frame) \<Rightarrow>
                  sync_range c rest
                    (observe_front min_sync (sync_timeStamp front_frame),
                     observe_back max_sync (sync_timeStamp back_frame))
              | _ \<Rightarrow> sync_range c rest (min_sync, max_sync)))"

text \<open>
  What the second loop reads besides the compositor: the size of the composite buffer,
  the generator's \<^verbatim>\<open>m_crop\<close>, and \<^verbatim>\<open>width()\<close> and \<^verbatim>\<open>height()\<close> of a frame's buffer
  (an \<^verbatim>\<open>int\<close> in the library; every use in the loop is in \<^verbatim>\<open>uint32_t\<close> arithmetic).
\<close>

record 'b composition =
  composite_width :: uint32_t
  composite_height :: uint32_t
  m_crop :: bool
  buffer_width :: "'b \<Rightarrow> uint32_t"
  buffer_height :: "'b \<Rightarrow> uint32_t"

text \<open>The eight numbers the loop hands to \<^verbatim>\<open>libyuv::I420Scale\<close> for one region.\<close>

record scale_args =
  arg_src_x :: uint32_t
  arg_src_y :: uint32_t
  arg_src_width :: uint32_t
  arg_src_height :: uint32_t
  arg_dst_x :: uint32_t
  arg_dst_y :: uint32_t
  arg_dst_width :: uint32_t
  arg_dst_height :: uint32_t

text \<open>
  The placement of one region (source lines 589 to 635). The four products with the
  canvas size are taken in \<^verbatim>\<open>uint64_t\<close> and the quotients cut to \<^verbatim>\<open>uint32_t\<close>; everything
  after that is \<^verbatim>\<open>uint32_t\<close> arithmetic, which wraps. An integer division by zero traps:
  by a zero denominator of the rectangle, with \<^verbatim>\<open>m_crop\<close> by a destination of height or
  width 0, without it by an input buffer of height or width 0. The pixels that
  \<^verbatim>\<open>I420Scale\<close> then writes are not modelled, and its return value is only logged.
\<close>

definition place_region :: "'b composition \<Rightarrow> Rectangle \<Rightarrow> 'b \<Rightarrow> error + scale_args" where
  "place_region t rect inputBuffer =
     (if denominator (rect_left rect) = 0 \<or> denominator (rect_top rect) = 0
         \<or> denominator (rect_width rect) = 0 \<or> denominator (rect_height rect) = 0
      then Inl DivisionByZero
      else
        let dst_x :: uint32_t =
              ucast ((ucast (composite_width t) * ucast (numerator (rect_left rect)) :: 64 word)
                       div ucast (denominator (rect_left rect)));
            dst_y :: uint32_t =
              ucast ((ucast (composite_height t) * ucast (numerator (rect_top rect)) :: 64 word)
                       div ucast (denominator (rect_top rect)));
            dst_width0 :: uint32_t =
              ucast ((ucast (composite_width t) * ucast (numerator (rect_width rect)) :: 64 word)
                       div ucast (denominator (rect_width rect)));
            dst_height0 :: uint32_t =
              ucast ((ucast (composite_height t) * ucast (numerator (rect_height rect)) :: 64 word)
                       div ucast (denominator (rect_height rect)));
            dst_width =
              (if composite_width t < dst_x + dst_width0 then composite_width t - dst_x
               else dst_width0);
            dst_height =
              (if composite_height t < dst_y + dst_height0 then composite_height t - dst_y
               else dst_height0);
            in_width = buffer_width t inputBuffer;
            in_height = buffer_height t inputBuffer
        in if m_crop t then
             (if dst_height = 0 \<or> dst_width = 0 then Inl DivisionByZero
              else
                let src_width = min in_width (dst_width * in_height div dst_height);
                    src_height = min in_height (dst_height * in_width div dst_width);
                    src_x = (in_width - src_width) div 2;
                    src_y = (in_height - src_height) div 2;
                    cropped_dst_width = dst_width;
                    cropped_dst_height = dst_height
                in Inr
                  \<lparr>arg_src_x = src_x AND NOT 1,
                   arg_src_y = src_y AND NOT 1,
                   arg_src_width = src_width AND NOT 1,
                   arg_src_height = src_height AND NOT 1,
                   arg_dst_x = (dst_x + (dst_width - cropped_dst_width) div 2) AND NOT 1,
                   arg_dst_y = (dst_y + (dst_height - cropped_dst_height) div 2) AND NOT 1,
                   arg_dst_width = cropped_dst_width AND NOT 1,
                   arg_dst_height = cropped_dst_height AND NOT 1\<rparr>)
           else
             (if in_height = 0 \<or> in_width = 0 then Inl DivisionByZero
              else
                let src_width = in_width;
                    src_height = in_height;
                    src_x = 0;
                    src_y = 0;
                    cropped_dst_width = min dst_width (in_width * dst_height div in_height);
                    cropped_dst_height = min dst_height (in_height * dst_width div in_width)
                in Inr
                  \<lparr>arg_src_x = src_x AND NOT 1,
                   arg_src_y = src_y AND NOT 1,
                   arg_src_width = src_width AND NOT 1,
                   arg_src_height = src_height AND NOT 1,
                   arg_dst_x = (dst_x + (dst_width - cropped_dst_width) div 2) AND NOT 1,
                   arg_dst_y = (dst_y + (dst_height - cropped_dst_height) div 2) AND NOT 1,
                   arg_dst_width = cropped_dst_width AND NOT 1,
                   arg_dst_height = cropped_dst_height AND NOT 1\<rparr>))"

text \<open>
  The body of the second loop after the frame has been fetched: a region without a
  frame is skipped (\<open>None\<close>), any other is placed and scaled.
\<close>

definition paint_region ::
  "'b composition \<Rightarrow> 'b VideoFrame option \<Rightarrow> Rectangle
     \<Rightarrow> error + ('b VideoFrame \<times> scale_args) option" where
  "paint_region t inputFrame rect =
     (case inputFrame of
        None \<Rightarrow> Inr None
      | Some frame \<Rightarrow>
          (case place_region t rect (video_frame_buffer frame) of
             Inl e \<Rightarrow> Inl e
           | Inr args \<Rightarrow> Inr (Some (frame, args))))"

text \<open>
  The second loop: for each region in layout order a frame by the three-way test of
  the source, then the placement. The result lists, per region, the frame and where it
  was painted (\<open>None\<close> where the source skips the region), with the compositor after
  the pass. A trap ends the pass at that region: the regions after it get no frame.
\<close>

fun fetch_regions ::
  "'b composition \<Rightarrow> 'b loader \<Rightarrow> int64_t \<Rightarrow> int64_t \<Rightarrow> 'b SoftVideoCompositor
     \<Rightarrow> Rectangle InputRegion list
     \<Rightarrow> error + ('b VideoFrame \<times> scale_args) option list \<times> 'b SoftVideoCompositor" where
  "fetch_regions t load min_sync max_sync c [] = Inr ([], c)"
| "fetch_regions t load min_sync max_sync c (it # rest) =
     (case (if max_sync = - 1 then getInputFrame load c (input it)
            else if max_sync <s min_sync then getSyncInputFrame load c (input it) (- 1)
            else getSyncInputFrame load c (input it) max_sync) of
        Inl e \<Rightarrow> Inl e
      | Inr (inputFrame, c') \<Rightarrow>
          (case paint_region t inputFrame (region it) of
             Inl e \<Rightarrow> Inl e
           | Inr painted \<Rightarrow>
               (case fetch_regions t load min_sync max_sync c' rest of
                  Inl e \<Rightarrow> Inl e
                | Inr (frames, c'') \<Rightarrow> Inr (painted # frames, c''))))"

definition layout_regions ::
  "'b composition \<Rightarrow> 'b loader \<Rightarrow> 'b SoftVideoCompositor \<Rightarrow> Rectangle InputRegion list
     \<Rightarrow> error + ('b VideoFrame \<times> scale_args) option list \<times> 'b SoftVideoCompositor" where
  "layout_regions t load c regions =
     (case sync_range c regions (- 1, - 1) of
        Inl e \<Rightarrow> Inl e
      | Inr (min_sync, max_sync) \<Rightarrow> fetch_regions t load min_sync max_sync c regions)"

text \<open>
  For comparison with the pass: one fixed way of getting a frame, used for every region
  the pass reaches in layout order, each frame painted before the next is fetched.
\<close>

fun each_region ::
  "('f \<Rightarrow> 'r \<Rightarrow> error + 'p) \<Rightarrow> ('c \<Rightarrow> nat \<Rightarrow> error + 'f \<times> 'c) \<Rightarrow> 'c
     \<Rightarrow> 'r InputRegion list \<Rightarrow> error + 'p list \<times> 'c" where
  "each_region paint get c [] = Inr ([], c)"
| "each_region paint get c (it # rest) =
     (case get c (input it) of
        Inl e \<Rightarrow> Inl e
      | Inr (frame, c') \<Rightarrow>
          (case paint frame (region it) of
             Inl e \<Rightarrow> Inl e
           | Inr painted \<Rightarrow>
               (case each_region paint get c' rest of
                  Inl e \<Rightarrow> Inl e
                | Inr (frames, c'') \<Rightarrow> Inr (painted # frames, c''))))"

text \<open>The regions that take part in the sync target: sync enabled and a non-empty queue.\<close>

definition sync_capable :: "'b SoftInput \<Rightarrow> bool" where
  "sync_capable inp \<longleftrightarrow> isSyncEnabled inp \<and> m_frame_queue inp \<noteq> []"

definition sync_inputs :: "'b SoftVideoCompositor \<Rightarrow> 'r InputRegion list \<Rightarrow> 'b SoftInput list" where
  "sync_inputs c regions =
     filter sync_capable (map (\<lambda>it. m_inputs c ! input it) regions)"

text \<open>An input that is not active holds no frame: true of every input the calls produce.\<close>

definition input_inv :: "'b SoftInput \<Rightarrow> bool" where
  "input_inv inp \<longleftrightarrow> (\<not> m_active inp \<longrightarrow> m_frame_queue inp = [])"

section \<open>Example states\<close>

definition sync_frame :: "nat \<Rightarrow> int64_t \<Rightarrow> nat SoftInputFrame" where
  "sync_frame b t = \<lparr>buffer = b, timeStamp = 0, sync_enabled = True, sync_timeStamp = t\<rparr>"

definition sync_input :: "nat SoftInputFrame list \<Rightarrow> nat SoftInput" where
  "sync_input q =
     \<lparr>m_active = True, m_sync_enabled = True, m_frame_sync_enabled = True, m_frame_queue = q\<rparr>"

definition i420_frame :: "nat \<Rightarrow> int64_t \<Rightarrow> nat Frame" where
  "i420_frame b t =
     \<lparr>frame_format = FRAME_FORMAT_I420, frame_payload = b, frame_timeStamp = 0,
      frame_sync_enabled = True, frame_sync_timeStamp = t\<rparr>"

definition compositor_of :: "nat SoftInput list \<Rightarrow> nat SoftVideoCompositor" where
  "compositor_of inputs = \<lparr>m_inputs = inputs, m_avatarManager = AvatarManager_new\<rparr>"

text \<open>
  A canvas of 640 by 480 on which every input buffer is 320 by 240, letterboxed and
  cropped; the whole canvas, its two halves and a rectangle of height 0 as regions.
\<close>

definition canvas :: "nat composition" where
  "canvas =
     \<lparr>composite_width = 640, composite_height = 480, m_crop = False,
      buffer_width = (\<lambda>b. 320), buffer_height = (\<lambda>b. 240)\<rparr>"

definition crop_canvas :: "nat composition" where
  "crop_canvas = canvas\<lparr>m_crop := True\<rparr>"

definition ratio :: "uint32_t \<Rightarrow> uint32_t \<Rightarrow> Rational" where
  "ratio n d = \<lparr>numerator = n, denominator = d\<rparr>"

definition whole :: Rectangle where
  "whole =
     \<lparr>rect_left = ratio 0 1, rect_top = ratio 0 1, rect_width = ratio 1 1,
      rect_height = ratio 1 1\<rparr>"

definition left_half :: Rectangle where
  "left_half = whole\<lparr>rect_width := ratio 1 2\<rparr>"

definition right_half :: Rectangle where
  "right_half = whole\<lparr>rect_left := ratio 1 2, rect_width := ratio 1 2\<rparr>"

definition flat :: Rectangle where
  "flat = whole\<lparr>rect_height := ratio 0 1\<rparr>"

definition region_of :: "nat \<Rightarrow> Rectangle \<Rightarrow> Rectangle InputRegion" where
  "region_of i rect = \<lparr>input = i, region = rect\<rparr>"

definition painted_at :: "uint32_t \<Rightarrow> uint32_t \<Rightarrow> uint32_t \<Rightarrow> uint32_t \<Rightarrow> scale_args" where
  "painted_at x y w h =
     \<lparr>arg_src_x = 0, arg_src_y = 0, arg_src_width = 320, arg_src_height = 240,
      arg_dst_x = x, arg_dst_y = y, arg_dst_width = w, arg_dst_height = h\<rparr>"

definition full_queue :: "nat SoftInputFrame list" where
  "full_queue =
     [sync_frame 1 100, sync_frame 2 200, sync_frame 3 300, sync_frame 4 400, sync_frame 5 500]"

definition pool_ok :: push_env where
  "pool_ok = \<lparr>free_buffer = True, convert_ok = True\<rparr>"

definition pool_empty :: push_env where
  "pool_empty = \<lparr>free_buffer = False, convert_ok = True\<rparr>"

text \<open>Scenario S3 of the specification: two synced inputs, both fully enqueued.\<close>

definition s3_compositor :: "nat SoftVideoCompositor" where
  "s3_compositor =
     compositor_of
       [sync_input [sync_frame 1 100, sync_frame 2 200, sync_frame 3 300, sync_frame 4 400],
        sync_input [sync_frame 11 250, sync_frame 12 350, sync_frame 13 450]]"

definition s3_layout :: "Rectangle InputRegion list" where
  "s3_layout = [region_of 0 left_half, region_of 1 right_half]"

text \<open>Two synced inputs and one that was never activated.\<close>

definition mixed_compositor :: "nat SoftVideoCompositor" where
  "mixed_compositor =
     compositor_of
       [sync_input [sync_frame 1 100, sync_frame 2 200],
        sync_input [sync_frame 3 150, sync_frame 4 250],
        SoftInput_new]"

definition mixed_layout :: "Rectangle InputRegion list" where
  "mixed_layout = [region_of 0 left_half, region_of 1 right_half, region_of 2 whole]"

text \<open>
  Layouts with a region that has no rows, whose placement divides by zero when frames
  are cropped: as the first region, and after a region that can be painted.
\<close>

definition flat_layout :: "Rectangle InputRegion list" where
  "flat_layout = [region_of 0 flat, region_of 1 right_half]"

definition late_flat_layout :: "Rectangle InputRegion list" where
  "late_flat_layout = [region_of 0 left_half, region_of 1 flat]"

text \<open>A synced input whose only frame carries the sync timestamp \<open>- 1\<close>.\<close>

definition sentinel_compositor :: "nat SoftVideoCompositor" where
  "sentinel_compositor =
     compositor_of [sync_input [sync_frame 1 (- 1)], sync_input [sync_frame 2 10]]"

text \<open>
  Generators as the constructor leaves them: the band (60, 15), the band (50, 15) after
  it has collapsed to (15, 15), and the band (3221225472, 1610612736), whose upper end
  doubles past \<open>2 ^ 32\<close>.
\<close>

definition band_60_15 :: "nat SoftFrameGenerator" where
  "band_60_15 =
     \<lparr>m_maxSupportedFps = 60, m_minSupportedFps = 15, m_counter = 0, m_counterMax = 4,
      m_outputs = [[], [], [], []]\<rparr>"

definition band_15_15 :: "nat SoftFrameGenerator" where
  "band_15_15 =
     \<lparr>m_maxSupportedFps = 15, m_minSupportedFps = 15, m_counter = 0, m_counterMax = 1,
      m_outputs = [[]]\<rparr>"

definition band_wrap :: "nat SoftFrameGenerator" where
  "band_wrap =
     \<lparr>m_maxSupportedFps = 3221225472, m_minSupportedFps = 1610612736, m_counter = 0,
      m_counterMax = 2, m_outputs = [[], []]\<rparr>"

text \<open>
  The band (4026531840, 1325400064): doubling 1325400064 wraps once and then reaches
  4026531840 exactly, so the constructor keeps the band although its ratio is not a
  power of two.
\<close>

definition band_exotic :: "nat SoftFrameGenerator" where
  "band_exotic =
     \<lparr>m_maxSupportedFps = 4026531840, m_minSupportedFps = 1325400064, m_counter = 0,
      m_counterMax = 3, m_outputs = [[], [], []]\<rparr>"

definition output_at :: "uint32_t \<Rightarrow> nat Output_t" where
  "output_at f = \<lparr>output_width = 640, output_height = 480, output_fps = f, output_dest = 7\<rparr>"

definition composite :: "nat VideoFrame" where
  "composite = VideoFrame 0"

definition no_files :: file_system where
  "no_files url = None"

definition one_file :: file_system where
  "one_file url = (if url = ''a.2x2.i420'' then Some [16, 16, 16, 16, 128, 128] else None)"

definition plane_bytes :: "uint32_t \<Rightarrow> uint32_t \<Rightarrow> 8 word list \<Rightarrow> nat" where
  "plane_bytes w h bytes = length bytes"

definition no_image :: "nat loader" where
  "no_image url = None"

section \<open>Properties of the input queue\<close>

lemma sync_loop_nonempty: "q \<noteq> [] \<Longrightarrow> sync_loop target q \<noteq> []"
  by (induction q) auto

lemma sync_loop_post:
  "q \<noteq> [] \<Longrightarrow>
   target \<le>s sync_timeStamp (hd (sync_loop target q)) \<or> length (sync_loop target q) = 1"
  by (induction q) auto

text \<open>
  The loop in closed form: it drops the longest prefix of frames strictly before the
  target, but never the last frame.
\<close>

lemma sync_loop_drop:
  "sync_loop target q =
     drop (min (length (takeWhile (\<lambda>f. sync_timeStamp f <s target) q)) (length q - 1)) q"
proof (induction q)
  case Nil
  then show ?case by simp
next
  case (Cons f fs)
  show ?case
  proof (cases "target \<le>s sync_timeStamp f")
    case True
    then have "\<not> sync_timeStamp f <s target"
      by (simp add: signed.not_less)
    with True show ?thesis by simp
  next
    case False
    then have lt: "sync_timeStamp f <s target"
      by (simp add: signed.not_le)
    show ?thesis
    proof (cases fs)
      case Nil
      with False show ?thesis by simp
    next
      case (Cons g gs)
      with False lt Cons.IH show ?thesis by simp
    qed
  qed
qed

text \<open>
  C6. On an active input with a non-empty queue, \<open>popInput\<close> returns the front frame; the
  front is removed when the queue holds more than one frame and the queue is left as it
  is otherwise, so at least one frame always remains.
\<close>

theorem popInput_keeps_last_frame:
  assumes "m_active inp" and "m_frame_queue inp \<noteq> []"
  shows "fst (popInput inp) = Some (VideoFrame (buffer (hd (m_frame_queue inp))))
    \<and> (1 < length (m_frame_queue inp) \<longrightarrow>
         m_frame_queue (snd (popInput inp)) = tl (m_frame_queue inp))
    \<and> (\<not> 1 < length (m_frame_queue inp) \<longrightarrow>
         m_frame_queue (snd (popInput inp)) = m_frame_queue inp)
    \<and> (m_frame_queue (snd (popInput inp)) = tl (m_frame_queue inp)
         \<longleftrightarrow> 1 < length (m_frame_queue inp))
    \<and> 1 \<le> length (m_frame_queue (snd (popInput inp)))"
proof (cases "m_frame_queue inp")
  case Nil
  with assms show ?thesis by simp
next
  case (Cons f fs)
  with assms show ?thesis
    by (cases fs) (simp_all add: popInput_def Let_def)
qed

theorem popInput_keeps_last_frame_witness:
  "m_active (sync_input [sync_frame 1 100, sync_frame 2 200])
   \<and> m_frame_queue (sync_input [sync_frame 1 100, sync_frame 2 200]) \<noteq> []
   \<and> fst (popInput (sync_input [sync_frame 1 100, sync_frame 2 200])) = Some (VideoFrame 1)
   \<and> m_frame_queue (snd (popInput (sync_input [sync_frame 1 100, sync_frame 2 200])))
       = [sync_frame 2 200]"
  using popInput_keeps_last_frame [of "sync_input [sync_frame 1 100, sync_frame 2 200]"]
  by (simp add: sync_input_def sync_frame_def)

text \<open>
  C2. On an active input with a non-empty queue, \<open>get_sync_frame\<close> with target \<open>- 1\<close>
  returns the front and removes nothing. With any other target it removes the leading
  frames whose sync timestamp is strictly before the target, but never the last frame
  of the queue, and returns the front of what is left; at least one frame remains.
\<close>

theorem get_sync_frame_advances:
  assumes "m_active inp" and "m_frame_queue inp \<noteq> []"
  shows "(target = - 1 \<longrightarrow>
            get_sync_frame inp target = (Some (hd (m_frame_queue inp)), inp))
    \<and> (target \<noteq> - 1 \<longrightarrow>
         (let n = min (length (takeWhile (\<lambda>f. sync_timeStamp f <s target) (m_frame_queue inp)))
                      (length (m_frame_queue inp) - 1);
              q' = drop n (m_frame_queue inp)
          in get_sync_frame inp target = (Some (hd q'), inp\<lparr>m_frame_queue := q'\<rparr>)))
    \<and> 1 \<le> length (m_frame_queue (snd (get_sync_frame inp target)))"
proof -
  have ne: "sync_loop target (m_frame_queue inp) \<noteq> []"
    using assms(2) by (rule sync_loop_nonempty)
  have a: "target = - 1 \<longrightarrow>
      get_sync_frame inp target = (Some (hd (m_frame_queue inp)), inp)"
    using assms by (simp add: get_sync_frame_def)
  have b: "target \<noteq> - 1 \<longrightarrow>
      get_sync_frame inp target =
        (Some (hd (sync_loop target (m_frame_queue inp))),
         inp\<lparr>m_frame_queue := sync_loop target (m_frame_queue inp)\<rparr>)"
    using assms by (simp add: get_sync_frame_def Let_def)
  have c: "1 \<le> length (m_frame_queue (snd (get_sync_frame inp target)))"
    using assms ne by (cases "target = - 1") (simp_all add: get_sync_frame_def Let_def Suc_le_eq)
  have b': "target \<noteq> - 1 \<longrightarrow>
         (let n = min (length (takeWhile (\<lambda>f. sync_timeStamp f <s target) (m_frame_queue inp)))
                      (length (m_frame_queue inp) - 1);
              q' = drop n (m_frame_queue inp)
          in get_sync_frame inp target = (Some (hd q'), inp\<lparr>m_frame_queue := q'\<rparr>))"
    unfolding Let_def sync_loop_drop [symmetric] by (fact b)
  from a b' c show ?thesis by blast
qed

theorem get_sync_frame_advances_witness:
  "m_active (sync_input [sync_frame 1 100, sync_frame 2 200, sync_frame 3 300])
   \<and> get_sync_frame (sync_input [sync_frame 1 100, sync_frame 2 200, sync_frame 3 300]) 250
       = (Some (sync_frame 3 300), sync_input [sync_frame 3 300])
   \<and> get_sync_frame (sync_input [sync_frame 1 100, sync_frame 2 200, sync_frame 3 300]) 900
       = (Some (sync_frame 3 300), sync_input [sync_frame 3 300])
   \<and> get_sync_frame (sync_input [sync_frame 1 100, sync_frame 2 200, sync_frame 3 300]) (- 1)
       = (Some (sync_frame 1 100),
          sync_input [sync_frame 1 100, sync_frame 2 200, sync_frame 3 300])"
  using get_sync_frame_advances
          [of "sync_input [sync_frame 1 100, sync_frame 2 200, sync_frame 3 300]" 250]
        get_sync_frame_advances
          [of "sync_input [sync_frame 1 100, sync_frame 2 200, sync_frame 3 300]" 900]
        get_sync_frame_advances
          [of "sync_input [sync_frame 1 100, sync_frame 2 200, sync_frame 3 300]" "- 1"]
  by (simp add: sync_input_def sync_frame_def word_sless_alt Let_def)

section \<open>Pushing frames\<close>

lemma pushInput_returns:
  "ndebug \<or> frame_format frame = FRAME_FORMAT_I420 \<Longrightarrow>
   \<exists>inp'. pushInput ndebug env inp frame = Inr inp'"
  by (auto simp add: pushInput_def Let_def)

lemma pushInput_sync_disabled:
  "\<not> m_sync_enabled inp \<Longrightarrow> pushInput ndebug env inp frame = Inr inp' \<Longrightarrow>
   \<not> m_sync_enabled inp'"
  by (auto simp add: pushInput_def Let_def split: if_splits)

lemma apply_op_sync_disabled:
  "\<not> m_sync_enabled inp \<Longrightarrow> apply_op inp x = Inr inp' \<Longrightarrow> \<not> m_sync_enabled inp'"
proof (cases x)
  case (PushInput ndebug env frame)
  then show "\<not> m_sync_enabled inp \<Longrightarrow> apply_op inp x = Inr inp' \<Longrightarrow> \<not> m_sync_enabled inp'"
    using pushInput_sync_disabled [of inp ndebug env frame inp'] by simp
qed (auto simp add: setActive_def popInput_def get_sync_frame_def Let_def split: if_splits)

lemma run_ops_sync_disabled:
  "\<not> m_sync_enabled inp \<Longrightarrow> run_ops inp ops = Inr inp' \<Longrightarrow> \<not> m_sync_enabled inp'"
proof (induction ops arbitrary: inp)
  case Nil
  then show ?case by simp
next
  case (Cons x xs)
  then show ?case
    by (auto split: sum.splits dest: apply_op_sync_disabled)
qed

text \<open>
  C9 (amended). A frame pushed to an input that is not active is dropped and the input
  is left exactly as it was, whenever the call gets past its assertion (the frame is
  I420, or assertions are compiled out). A frame that is not I420 is not dropped: with
  assertions compiled in the call fails its assertion.
\<close>

theorem pushInput_inactive_drops:
  "(\<not> m_active inp \<and> (ndebug \<or> frame_format frame = FRAME_FORMAT_I420) \<longrightarrow>
      pushInput ndebug env inp frame = Inr inp)
   \<and> (\<not> ndebug \<and> frame_format frame \<noteq> FRAME_FORMAT_I420 \<longrightarrow>
      pushInput ndebug env inp frame = Inl AssertionFailure)"
  by (auto simp add: pushInput_def)

theorem pushInput_inactive_drops_witness:
  "\<not> m_active (SoftInput_new :: nat SoftInput)
   \<and> frame_format (i420_frame 1 100) = FRAME_FORMAT_I420
   \<and> pushInput False pool_ok SoftInput_new (i420_frame 1 100)
       = Inr SoftInput_new
   \<and> frame_format ((i420_frame 1 100)\<lparr>frame_format := FRAME_FORMAT_H264\<rparr>) \<noteq> FRAME_FORMAT_I420
   \<and> pushInput False pool_ok SoftInput_new
         ((i420_frame 1 100)\<lparr>frame_format := FRAME_FORMAT_H264\<rparr>)
       = Inl AssertionFailure"
  using pushInput_inactive_drops
          [of SoftInput_new False "i420_frame 1 100" "pool_ok"]
        pushInput_inactive_drops
          [of SoftInput_new False "(i420_frame 1 100)\<lparr>frame_format := FRAME_FORMAT_H264\<rparr>"
              "pool_ok"]
  by (simp add: SoftInput_new_def i420_frame_def pool_ok_def)

text \<open>
  As the specification states it, the property fails on an active input: a frame that is not I420 trips the
  assertion when assertions are compiled in, and is enqueued when they are not.
\<close>

theorem pushInput_format_counterexample:
  "pushInput False pool_ok (sync_input [])
       ((i420_frame 1 100)\<lparr>frame_format := FRAME_FORMAT_H264\<rparr>)
     = Inl AssertionFailure
   \<and> pushInput True pool_ok (sync_input [])
       ((i420_frame 1 100)\<lparr>frame_format := FRAME_FORMAT_H264\<rparr>)
     = Inr (sync_input [sync_frame 1 100])
   \<and> m_frame_queue (sync_input [sync_frame 1 100]) \<noteq> m_frame_queue (sync_input [])"
  by (simp add: pushInput_def sync_input_def sync_frame_def i420_frame_def kMaxQueueSize_def pool_ok_def)

text \<open>
  C3 (amended). On an active input whose queue holds \<open>kMaxQueueSize\<close> frames, a push that
  gets past its assertion clears the queue and switches sync off; the new frame is then
  enqueued, leaving exactly one frame, when the pool has a free buffer and the
  conversion succeeds, and the queue stays empty otherwise. From then on
  \<open>isSyncEnabled\<close> is false after every sequence of calls on that input.
\<close>

theorem pushInput_full_queue_disables_sync:
  assumes "m_active inp"
    and "length (m_frame_queue inp) = kMaxQueueSize"
    and "ndebug \<or> frame_format frame = FRAME_FORMAT_I420"
  shows "\<exists>inp'. pushInput ndebug env inp frame = Inr inp'
    \<and> (free_buffer env \<and> convert_ok env \<longrightarrow>
         m_frame_queue inp' =
           [\<lparr>buffer = frame_payload frame, timeStamp = frame_timeStamp frame,
             sync_enabled = frame_sync_enabled frame,
             sync_timeStamp = frame_sync_timeStamp frame\<rparr>]
         \<and> length (m_frame_queue inp') = 1)
    \<and> (\<not> (free_buffer env \<and> convert_ok env) \<longrightarrow> m_frame_queue inp' = [])
    \<and> \<not> isSyncEnabled inp'
    \<and> (\<forall>ops inp''. run_ops inp' ops = Inr inp'' \<longrightarrow> \<not> isSyncEnabled inp'')"
proof -
  obtain inp' where p: "pushInput ndebug env inp frame = Inr inp'"
    using pushInput_returns [OF assms(3)] by blast
  have q1: "free_buffer env \<and> convert_ok env \<longrightarrow>
         m_frame_queue inp' =
           [\<lparr>buffer = frame_payload frame, timeStamp = frame_timeStamp frame,
             sync_enabled = frame_sync_enabled frame,
             sync_timeStamp = frame_sync_timeStamp frame\<rparr>]"
    using p assms by (auto simp add: pushInput_def Let_def split: if_splits)
  have q0: "\<not> (free_buffer env \<and> convert_ok env) \<longrightarrow> m_frame_queue inp' = []"
    using p assms by (auto simp add: pushInput_def Let_def split: if_splits)
  have off: "\<not> m_sync_enabled inp'"
    using p assms by (auto simp add: pushInput_def Let_def split: if_splits)
  have later: "\<forall>ops inp''. run_ops inp' ops = Inr inp'' \<longrightarrow> \<not> isSyncEnabled inp''"
    using run_ops_sync_disabled [OF off] by (auto simp add: isSyncEnabled_def)
  from p q1 q0 off later show ?thesis
    by (auto simp add: isSyncEnabled_def)
qed


theorem pushInput_full_queue_disables_sync_witness:
  "m_active (sync_input full_queue)
   \<and> length (m_frame_queue (sync_input full_queue)) = kMaxQueueSize
   \<and> frame_format (i420_frame 6 600) = FRAME_FORMAT_I420
   \<and> pushInput False pool_ok (sync_input full_queue) (i420_frame 6 600)
       = Inr ((sync_input [sync_frame 6 600])\<lparr>m_sync_enabled := False\<rparr>)
   \<and> run_ops ((sync_input [sync_frame 6 600])\<lparr>m_sync_enabled := False\<rparr>)
         [PushInput False pool_ok (i420_frame 7 700), PopInput, SetActive False, SetActive True,
          PushInput False pool_ok (i420_frame 8 800)]
       = Inr ((sync_input [sync_frame 8 800])\<lparr>m_sync_enabled := False\<rparr>)
   \<and> \<not> isSyncEnabled ((sync_input [sync_frame 8 800])\<lparr>m_sync_enabled := False\<rparr>)"
  using pushInput_full_queue_disables_sync
          [of "sync_input full_queue" False "i420_frame 6 600" pool_ok]
  by (simp add: pushInput_def setActive_def popInput_def sync_input_def sync_frame_def
        i420_frame_def full_queue_def kMaxQueueSize_def pool_ok_def isSyncEnabled_def)

text \<open>
  As the specification states it, the property fails when the pool has no free buffer: the full queue is cleared
  and nothing is enqueued, so the queue holds no frame rather than one.
\<close>

theorem pushInput_full_queue_counterexample:
  "m_active (sync_input full_queue)
   \<and> length (m_frame_queue (sync_input full_queue)) = kMaxQueueSize
   \<and> pushInput False pool_empty (sync_input full_queue) (i420_frame 6 600)
       = Inr ((sync_input [])\<lparr>m_sync_enabled := False\<rparr>)
   \<and> length (m_frame_queue ((sync_input [])\<lparr>m_sync_enabled := False\<rparr>)) \<noteq> 1"
  by (simp add: pushInput_def sync_input_def sync_frame_def i420_frame_def full_queue_def
        kMaxQueueSize_def pool_empty_def)

section \<open>The avatar cache\<close>

lemmas load_eval = loadImage_def getImageSize_def find_from_def strtol_def isspace_def
  isdigit_def Let_def no_files_def one_file_def plane_bytes_def

lemma getImageSize_example: "getImageSize ''a.2x2.i420'' = Some (2, 2)"
  by (simp add: load_eval)

lemma getImageSize_spec_example: "getImageSize ''face.320x240.i420'' = Some (320, 240)"
  by (simp add: load_eval)

lemma getImageSize_no_size: "getImageSize ''face.i420'' = None"
  by (simp add: load_eval)



lemma loadImage_missing_file:
  assumes "fs url = None"
  shows "loadImage I420Copy fs url = None"
proof (cases "getImageSize url")
  case None
  then show ?thesis by (simp add: loadImage_def)
next
  case (Some wh)
  obtain w h where wh: "wh = (w, h)" by (cases wh)
  have "unat ((w * h * 3 + 1) div 2) = unat (w * h * 3 + 1) div 2"
    by (simp add: unat_div)
  moreover have "unat (w * h * 3 + 1) < 2 ^ 32"
    using unsigned_less [of "w * h * 3 + 1", where 'a = nat] by simp
  ultimately have small: "unat ((w * h * 3 + 1) div 2) < 2 ^ 31" by simp
  have "(w * h * 3 + 1) div 2 \<noteq> - 1"
  proof
    assume "(w * h * 3 + 1) div 2 = - 1"
    then have "unat ((w * h * 3 + 1) div 2) = unat (- 1 :: uint32_t)" by simp
    also have "\<dots> = 4294967295" by (simp add: unsigned_minus_1_eq_mask mask_eq_exp_minus_1)
    finally show False using small by simp
  qed
  with Some wh assms show ?thesis by (simp add: loadImage_def)
qed










section \<open>The sync target of a composition pass\<close>

lemma sync_range_foldl:
  assumes "\<forall>it \<in> set regions. input it < length (m_inputs c)"
    and "\<forall>inp \<in> set (m_inputs c). input_inv inp"
  shows "sync_range c regions (min_sync, max_sync) =
    Inr (foldl observe_front min_sync
           (map (\<lambda>inp. sync_timeStamp (hd (m_frame_queue inp))) (sync_inputs c regions)),
         foldl observe_back max_sync
           (map (\<lambda>inp. sync_timeStamp (last (m_frame_queue inp))) (sync_inputs c regions)))"
  using assms(1)
proof (induction regions arbitrary: min_sync max_sync)
  case Nil
  then show ?case by (simp add: sync_inputs_def)
next
  case (Cons it rest)
  let ?inp = "m_inputs c ! input it"
  from Cons.prems have lt: "input it < length (m_inputs c)" by simp
  then have "?inp \<in> set (m_inputs c)" by simp
  with assms(2) have inv: "input_inv ?inp" by blast
  from Cons.prems have rest: "\<forall>it \<in> set rest. input it < length (m_inputs c)" by simp
  note IH = Cons.IH [OF rest]
  show ?case
  proof (cases "sync_capable ?inp")
    case True
    with inv have "m_active ?inp" and "m_frame_queue ?inp \<noteq> []" and "isSyncEnabled ?inp"
      by (auto simp add: sync_capable_def input_inv_def)
    with lt True show ?thesis
      by (simp add: IH front_def back_def sync_inputs_def Let_def)
  next
    case False
    then have "\<not> isSyncEnabled ?inp \<or> (front ?inp = None \<and> back ?inp = None)"
      by (auto simp add: sync_capable_def front_def back_def)
    with lt False show ?thesis
      by (auto simp add: IH sync_inputs_def Let_def)
  qed
qed

lemma sint_observe_front:
  "m \<noteq> - 1 \<Longrightarrow> sint (observe_front m t) = max (sint m) (sint t)"
  by (simp add: observe_front_def word_sless_alt max_def)

lemma sint_observe_back:
  "m \<noteq> - 1 \<Longrightarrow> sint (observe_back m t) = min (sint m) (sint t)"
  by (simp add: observe_back_def word_sless_alt min_def)

lemma observe_front_not_sentinel:
  "m \<noteq> - 1 \<Longrightarrow> t \<noteq> - 1 \<Longrightarrow> observe_front m t \<noteq> - 1"
  by (simp add: observe_front_def)

lemma observe_back_not_sentinel:
  "m \<noteq> - 1 \<Longrightarrow> t \<noteq> - 1 \<Longrightarrow> observe_back m t \<noteq> - 1"
  by (simp add: observe_back_def)

lemma foldl_observe_front:
  "m \<noteq> - 1 \<Longrightarrow> \<forall>t \<in> set ts. t \<noteq> - 1 \<Longrightarrow>
   foldl observe_front m ts \<noteq> - 1
   \<and> sint (foldl observe_front m ts) = Max (insert (sint m) (sint ` set ts))"
proof (induction ts arbitrary: m)
  case Nil
  then show ?case by simp
next
  case (Cons t ts)
  have "observe_front m t \<noteq> - 1"
    using Cons.prems by (simp add: observe_front_not_sentinel)
  moreover have "\<forall>t \<in> set ts. t \<noteq> - 1" using Cons.prems by simp
  ultimately have IH: "foldl observe_front (observe_front m t) ts \<noteq> - 1
     \<and> sint (foldl observe_front (observe_front m t) ts)
       = Max (insert (sint (observe_front m t)) (sint ` set ts))"
    by (rule Cons.IH)
  have "Max (insert (max (sint m) (sint t)) (sint ` set ts))
      = Max (insert (sint m) (insert (sint t) (sint ` set ts)))"
    by (cases "sint ` set ts = {}") (simp_all add: max.assoc)
  with IH Cons.prems show ?case
    by (simp add: sint_observe_front)
qed

lemma foldl_observe_back:
  "m \<noteq> - 1 \<Longrightarrow> \<forall>t \<in> set ts. t \<noteq> - 1 \<Longrightarrow>
   foldl observe_back m ts \<noteq> - 1
   \<and> sint (foldl observe_back m ts) = Min (insert (sint m) (sint ` set ts))"
proof (induction ts arbitrary: m)
  case Nil
  then show ?case by simp
next
  case (Cons t ts)
  have "observe_back m t \<noteq> - 1"
    using Cons.prems by (simp add: observe_back_not_sentinel)
  moreover have "\<forall>t \<in> set ts. t \<noteq> - 1" using Cons.prems by simp
  ultimately have IH: "foldl observe_back (observe_back m t) ts \<noteq> - 1
     \<and> sint (foldl observe_back (observe_back m t) ts)
       = Min (insert (sint (observe_back m t)) (sint ` set ts))"
    by (rule Cons.IH)
  have "Min (insert (min (sint m) (sint t)) (sint ` set ts))
      = Min (insert (sint m) (insert (sint t) (sint ` set ts)))"
    by (cases "sint ` set ts = {}") (simp_all add: min.assoc)
  with IH Cons.prems show ?case
    by (simp add: sint_observe_back)
qed

lemma foldl_observe_front_start:
  assumes "ts \<noteq> []" and "\<forall>t \<in> set ts. t \<noteq> - 1"
  shows "foldl observe_front (- 1) ts \<noteq> - 1
    \<and> sint (foldl observe_front (- 1) ts) = Max (sint ` set ts)"
proof (cases ts)
  case Nil
  with assms show ?thesis by simp
next
  case (Cons t ts')
  with assms have "t \<noteq> - 1" and "\<forall>t \<in> set ts'. t \<noteq> - 1" by simp_all
  then have "foldl observe_front t ts' \<noteq> - 1
    \<and> sint (foldl observe_front t ts') = Max (insert (sint t) (sint ` set ts'))"
    by (rule foldl_observe_front)
  with Cons show ?thesis by (simp add: observe_front_def)
qed

lemma foldl_observe_back_start:
  assumes "ts \<noteq> []" and "\<forall>t \<in> set ts. t \<noteq> - 1"
  shows "foldl observe_back (- 1) ts \<noteq> - 1
    \<and> sint (foldl observe_back (- 1) ts) = Min (sint ` set ts)"
proof (cases ts)
  case Nil
  with assms show ?thesis by simp
next
  case (Cons t ts')
  with assms have "t \<noteq> - 1" and "\<forall>t \<in> set ts'. t \<noteq> - 1" by simp_all
  then have "foldl observe_back t ts' \<noteq> - 1
    \<and> sint (foldl observe_back t ts') = Min (insert (sint t) (sint ` set ts'))"
    by (rule foldl_observe_back)
  with Cons show ?thesis by (simp add: observe_back_def)
qed

lemma fetch_regions_unsynced:
  "fetch_regions t load min_sync (- 1) c regions =
     each_region (paint_region t) (getInputFrame load) c regions"
  by (induction regions arbitrary: c) (auto split: sum.splits prod.splits)

lemma fetch_regions_hold:
  "max_sync \<noteq> - 1 \<Longrightarrow> max_sync <s min_sync \<Longrightarrow>
   fetch_regions t load min_sync max_sync c regions =
     each_region (paint_region t) (\<lambda>c index. getSyncInputFrame load c index (- 1)) c regions"
  by (induction regions arbitrary: c) (auto split: sum.splits prod.splits)

lemma fetch_regions_sync:
  "max_sync \<noteq> - 1 \<Longrightarrow> \<not> max_sync <s min_sync \<Longrightarrow>
   fetch_regions t load min_sync max_sync c regions =
     each_region (paint_region t) (\<lambda>c index. getSyncInputFrame load c index max_sync) c regions"
  by (induction regions arbitrary: c) (auto split: sum.splits prod.splits)

lemma fetch_regions_mode:
  "fetch_regions t load min_sync max_sync c regions =
     (if max_sync = - 1 then each_region (paint_region t) (getInputFrame load) c regions
      else if max_sync <s min_sync
        then each_region (paint_region t)
               (\<lambda>c index. getSyncInputFrame load c index (- 1)) c regions
        else each_region (paint_region t)
               (\<lambda>c index. getSyncInputFrame load c index max_sync) c regions)"
  by (simp add: fetch_regions_unsynced fetch_regions_hold fetch_regions_sync)

lemmas place_eval =
  place_region_def paint_region_def canvas_def crop_canvas_def ratio_def whole_def
  left_half_def right_half_def flat_def painted_at_def Let_def

lemmas pass_eval =
  layout_regions_def getInputFrame_def getSyncInputFrame_def get_sync_frame_def popInput_def
  getAvatarFrame_def front_def back_def isActive_def isSyncEnabled_def observe_front_def
  observe_back_def word_sless_alt word_sle_eq sync_capable_def sync_inputs_def
  input_inv_def compositor_of_def sync_input_def sync_frame_def region_of_def
  SoftInput_new_def AvatarManager_new_def place_eval

text \<open>
  The placements of the example regions: a 320 by 240 buffer is letterboxed into a half
  of the 640 by 480 canvas with bars of 120 rows above and below, and fills the whole
  canvas; with cropping the middle 160 columns of the buffer fill a half. A region
  without rows divides by zero when the frame is cropped, and a zero denominator does
  in either mode.
\<close>

lemma place_region_left_half:
  "place_region canvas left_half b = Inr (painted_at 0 120 320 240)"
  by (simp add: place_eval)

lemma place_region_right_half:
  "place_region canvas right_half b = Inr (painted_at 320 120 320 240)"
  by (simp add: place_eval)

lemma place_region_whole:
  "place_region canvas whole b = Inr (painted_at 0 0 640 480)"
  by (simp add: place_eval)

lemma place_region_crop_left_half:
  "place_region crop_canvas left_half b =
     Inr \<lparr>arg_src_x = 80, arg_src_y = 0, arg_src_width = 160, arg_src_height = 240,
          arg_dst_x = 0, arg_dst_y = 0, arg_dst_width = 320, arg_dst_height = 480\<rparr>"
  by (simp add: place_eval)

lemma place_region_flat: "place_region canvas flat b = Inr (painted_at 320 0 0 0)"
  by (simp add: place_eval)

lemma place_region_crop_flat: "place_region crop_canvas flat b = Inl DivisionByZero"
  by (simp add: place_eval)

lemma place_region_zero_denominator:
  "denominator (rect_left rect) = 0 \<or> denominator (rect_top rect) = 0
     \<or> denominator (rect_width rect) = 0 \<or> denominator (rect_height rect) = 0
   \<Longrightarrow> place_region t rect b = Inl DivisionByZero"
  by (simp add: place_region_def)

text \<open>
  A pass ends at the first region whose placement divides by zero: in the layout
  \<open>flat_layout\<close> the cropped pass dies at region 0 and never fetches a frame for
  region 1; in \<open>late_flat_layout\<close> it paints region 0 and dies at region 1.
\<close>

lemma layout_regions_flat_traps:
  "layout_regions crop_canvas no_image s3_compositor flat_layout = Inl DivisionByZero"
  by (simp add: pass_eval s3_compositor_def flat_layout_def)

lemma layout_regions_late_flat_traps:
  "layout_regions crop_canvas no_image s3_compositor late_flat_layout = Inl DivisionByZero"
  by (simp add: pass_eval s3_compositor_def late_flat_layout_def)

text \<open>
  C1 (amended). In a compositor whose layout indices are in range and whose inactive
  inputs hold no frames, if no front or back frame of a sync-capable region carries the
  sync timestamp \<open>- 1\<close>, then the first loop ends with \<open>min_sync\<close> the greatest front
  timestamp and \<open>max_sync\<close> the least back timestamp over the regions whose input has
  sync enabled and a non-empty queue (both \<open>- 1\<close> when there is no such region); and
  the pass is the run over the regions, in layout order, that gets each region's frame
  with \<open>getInputFrame\<close> when \<open>max_sync = - 1\<close>, with \<open>getSyncInputFrame\<close> at \<open>- 1\<close> when
  \<open>min_sync > max_sync\<close>, and with \<open>getSyncInputFrame\<close> at \<open>max_sync\<close> otherwise, and
  paints it before it goes on to the next region. The run, and so the pass, ends at the
  first region whose placement divides by zero.
\<close>

theorem layout_regions_sync_target:
  assumes "list_all (\<lambda>it. input it < length (m_inputs c)) regions"
    and "list_all input_inv (m_inputs c)"
    and "list_all (\<lambda>inp. sync_timeStamp (hd (m_frame_queue inp)) \<noteq> - 1
                     \<and> sync_timeStamp (last (m_frame_queue inp)) \<noteq> - 1)
           (sync_inputs c regions)"
  shows "\<exists>min_sync max_sync.
      sync_range c regions (- 1, - 1) = Inr (min_sync, max_sync)
    \<and> (sync_inputs c regions = [] \<longrightarrow> min_sync = - 1 \<and> max_sync = - 1)
    \<and> (sync_inputs c regions \<noteq> [] \<longrightarrow>
         sint min_sync =
           Max (set (map (\<lambda>inp. sint (sync_timeStamp (hd (m_frame_queue inp))))
                  (sync_inputs c regions)))
         \<and> sint max_sync =
           Min (set (map (\<lambda>inp. sint (sync_timeStamp (last (m_frame_queue inp))))
                  (sync_inputs c regions)))
         \<and> max_sync \<noteq> - 1)
    \<and> layout_regions t load c regions =
        (if max_sync = - 1 then each_region (paint_region t) (getInputFrame load) c regions
         else if max_sync <s min_sync
           then each_region (paint_region t)
                  (\<lambda>c index. getSyncInputFrame load c index (- 1)) c regions
           else each_region (paint_region t)
                  (\<lambda>c index. getSyncInputFrame load c index max_sync) c regions)"
proof -
  let ?fronts = "map (\<lambda>inp. sync_timeStamp (hd (m_frame_queue inp))) (sync_inputs c regions)"
  let ?backs = "map (\<lambda>inp. sync_timeStamp (last (m_frame_queue inp))) (sync_inputs c regions)"
  let ?mn = "foldl observe_front (- 1) ?fronts"
  let ?mx = "foldl observe_back (- 1) ?backs"
  have idx: "\<forall>it \<in> set regions. input it < length (m_inputs c)"
    using assms(1) by (simp add: list_all_iff)
  have inv: "\<forall>inp \<in> set (m_inputs c). input_inv inp"
    using assms(2) by (simp add: list_all_iff)
  have range: "sync_range c regions (- 1, - 1) = Inr (?mn, ?mx)"
    using idx inv by (rule sync_range_foldl)
  have none: "sync_inputs c regions = [] \<longrightarrow> ?mn = - 1 \<and> ?mx = - 1"
    by simp
  have some: "sync_inputs c regions \<noteq> [] \<longrightarrow>
         sint ?mn =
           Max (set (map (\<lambda>inp. sint (sync_timeStamp (hd (m_frame_queue inp))))
                  (sync_inputs c regions)))
         \<and> sint ?mx =
           Min (set (map (\<lambda>inp. sint (sync_timeStamp (last (m_frame_queue inp))))
                  (sync_inputs c regions)))
         \<and> ?mx \<noteq> - 1"
  proof
    assume ne: "sync_inputs c regions \<noteq> []"
    then have f: "?fronts \<noteq> []" and b: "?backs \<noteq> []" by simp_all
    have fs: "\<forall>t \<in> set ?fronts. t \<noteq> - 1" and bs: "\<forall>t \<in> set ?backs. t \<noteq> - 1"
      using assms(3) by (auto simp add: list_all_iff)
    have "sint ?mn = Max (sint ` set ?fronts)"
      using foldl_observe_front_start [OF f fs] by simp
    moreover have "?mx \<noteq> - 1 \<and> sint ?mx = Min (sint ` set ?backs)"
      using foldl_observe_back_start [OF b bs] by simp
    ultimately show "sint ?mn =
           Max (set (map (\<lambda>inp. sint (sync_timeStamp (hd (m_frame_queue inp))))
                  (sync_inputs c regions)))
         \<and> sint ?mx =
           Min (set (map (\<lambda>inp. sint (sync_timeStamp (last (m_frame_queue inp))))
                  (sync_inputs c regions)))
         \<and> ?mx \<noteq> - 1"
      by (simp add: image_image)
  qed
  have pass: "layout_regions t load c regions =
        (if ?mx = - 1 then each_region (paint_region t) (getInputFrame load) c regions
         else if ?mx <s ?mn
           then each_region (paint_region t)
                  (\<lambda>c index. getSyncInputFrame load c index (- 1)) c regions
           else each_region (paint_region t)
                  (\<lambda>c index. getSyncInputFrame load c index ?mx) c regions)"
    unfolding layout_regions_def range by (simp add: fetch_regions_mode)
  from range none some pass show ?thesis by blast
qed

theorem layout_regions_sync_target_witness:
  "list_all (\<lambda>it. input it < length (m_inputs mixed_compositor)) mixed_layout
   \<and> list_all input_inv (m_inputs mixed_compositor)
   \<and> list_all (\<lambda>inp. sync_timeStamp (hd (m_frame_queue inp)) \<noteq> - 1
                   \<and> sync_timeStamp (last (m_frame_queue inp)) \<noteq> - 1)
         (sync_inputs mixed_compositor mixed_layout)
   \<and> sync_range mixed_compositor mixed_layout (- 1, - 1) = Inr (150, 200)
   \<and> layout_regions canvas no_image mixed_compositor mixed_layout =
       each_region (paint_region canvas) (\<lambda>c index. getSyncInputFrame no_image c index 200)
         mixed_compositor mixed_layout
   \<and> layout_regions canvas no_image mixed_compositor mixed_layout =
       Inr ([Some (VideoFrame 2, painted_at 0 120 320 240),
             Some (VideoFrame 4, painted_at 320 120 320 240), None],
            compositor_of
              [sync_input [sync_frame 2 200], sync_input [sync_frame 4 250], SoftInput_new])"
  using layout_regions_sync_target
          [where c = mixed_compositor and regions = mixed_layout and load = no_image
             and t = canvas]
  by (simp add: pass_eval mixed_compositor_def mixed_layout_def)

text \<open>
  As the specification states it, the property fails when a frame carries the sync timestamp \<open>- 1\<close>: the running
  value \<open>- 1\<close> is taken for "unset" at every region, so the back timestamp \<open>- 1\<close> of
  the first input is overwritten by the 10 of the second, and \<open>max_sync\<close> is 10 although
  the first input is sync-capable with the lesser back timestamp \<open>- 1\<close>.
\<close>

theorem sync_target_sentinel_counterexample:
  "sync_range sentinel_compositor s3_layout (- 1, - 1) = Inr (10, 10)
   \<and> isSyncEnabled (m_inputs sentinel_compositor ! 0)
   \<and> back (m_inputs sentinel_compositor ! 0) = Some (sync_frame 1 (- 1))
   \<and> sync_timeStamp (sync_frame 1 (- 1)) <s 10"
  by (simp add: pass_eval sentinel_compositor_def s3_layout_def)

text \<open>
  C4 (amended). In scenario S3 the first loop ends with \<open>min_sync = 250\<close> and
  \<open>max_sync = 400\<close>, the least of the two back timestamps 400 and 450; the pass runs in
  sync mode at 400, so input 0 advances to its frame with sync timestamp 400 and
  input 1 to its frame with sync timestamp 450, each keeping that one frame. The two
  frames are painted letterboxed into the left and the right half of the canvas.
\<close>

theorem s3_sync_alignment:
  "sync_range s3_compositor s3_layout (- 1, - 1) = Inr (250, 400)
   \<and> layout_regions canvas no_image s3_compositor s3_layout =
       Inr ([Some (VideoFrame 4, painted_at 0 120 320 240),
             Some (VideoFrame 13, painted_at 320 120 320 240)],
            compositor_of [sync_input [sync_frame 4 400], sync_input [sync_frame 13 450]])"
  by (simp add: pass_eval s3_compositor_def s3_layout_def)

text \<open>
  The values the specification gives for S3 (\<open>max_sync = 300\<close>, input 0 at its frame 300 and
  input 1 at its frame 350) are not the ones the pass computes.
\<close>

theorem s3_sync_alignment_counterexample:
  "sync_range s3_compositor s3_layout (- 1, - 1) \<noteq> Inr (250, 300)
   \<and> layout_regions canvas no_image s3_compositor s3_layout \<noteq>
       Inr ([Some (VideoFrame 3, painted_at 0 120 320 240),
             Some (VideoFrame 12, painted_at 320 120 320 240)],
            compositor_of
              [sync_input [sync_frame 3 300, sync_frame 4 400],
               sync_input [sync_frame 12 350, sync_frame 13 450]])"
  by (simp add: pass_eval s3_compositor_def s3_layout_def)

section \<open>Frames chosen in sync mode\<close>

lemma sync_loop_idem: "sync_loop target (sync_loop target q) = sync_loop target q"
  by (induction q) auto

lemma getSyncInputFrame_capable:
  assumes "i < length (m_inputs c)"
    and "m_active (m_inputs c ! i)"
    and "sync_capable (m_inputs c ! i)"
    and "target \<noteq> - 1"
  shows "getSyncInputFrame load c i target =
    Inr (Some (VideoFrame (buffer (hd (sync_loop target (m_frame_queue (m_inputs c ! i)))))),
         c\<lparr>m_inputs := (m_inputs c)
              [i := (m_inputs c ! i)
                 \<lparr>m_frame_queue := sync_loop target (m_frame_queue (m_inputs c ! i))\<rparr>]\<rparr>)"
  using assms
  by (simp add: getSyncInputFrame_def get_sync_frame_def isActive_def sync_capable_def Let_def)

lemma getSyncInputFrame_others:
  assumes "j < length (m_inputs c)"
  shows "\<exists>fr c1. getSyncInputFrame load c j target = Inr (fr, c1)
    \<and> length (m_inputs c1) = length (m_inputs c)
    \<and> (\<forall>i. i \<noteq> j \<longrightarrow> m_inputs c1 ! i = m_inputs c ! i)"
  using assms
  by (auto simp add: getSyncInputFrame_def Let_def split: prod.splits)

lemma paint_region_frame:
  assumes "paint_region t (Some fr) rect = Inr painted"
  shows "\<exists>args. painted = Some (fr, args)
    \<and> place_region t rect (video_frame_buffer fr) = Inr args"
  using assms by (auto simp add: paint_region_def split: sum.splits)

lemma fetch_regions_step:
  assumes "fetch_regions t load min_sync target c (it # rest) = Inr (frames, c')"
    and "target \<noteq> - 1" and "\<not> target <s min_sync"
  shows "\<exists>fr c1 painted frames0.
      getSyncInputFrame load c (input it) target = Inr (fr, c1)
    \<and> paint_region t fr (region it) = Inr painted
    \<and> fetch_regions t load min_sync target c1 rest = Inr (frames0, c')
    \<and> frames = painted # frames0"
  using assms by (auto split: sum.splits prod.splits)

text \<open>
  A run of the second loop in sync mode that gets through the regions: what it does to
  the queue of an active sync-capable input \<open>i\<close>, and which frame the regions of \<open>i\<close> get.
\<close>

lemma fetch_regions_sync_run:
  assumes "\<forall>it \<in> set regions. input it < length (m_inputs c)"
    and "i < length (m_inputs c)"
    and "m_active (m_inputs c ! i)"
    and "sync_capable (m_inputs c ! i)"
    and "fetch_regions t load min_sync target c regions = Inr (frames, c')"
    and "target \<noteq> - 1"
    and "\<not> target <s min_sync"
  shows "length frames = length regions
    \<and> length (m_inputs c') = length (m_inputs c)
    \<and> m_inputs c' ! i =
        (if i \<in> input ` set regions
         then (m_inputs c ! i)
                \<lparr>m_frame_queue := sync_loop target (m_frame_queue (m_inputs c ! i))\<rparr>
         else m_inputs c ! i)
    \<and> (\<forall>k < length regions. input (regions ! k) = i \<longrightarrow>
          (\<exists>args. frames ! k =
              Some (VideoFrame (buffer (hd (sync_loop target (m_frame_queue (m_inputs c ! i))))),
                    args)))"
  using assms(1-5)
proof (induction regions arbitrary: c frames)
  case Nil
  then show ?case by simp
next
  case (Cons it rest)
  let ?inp = "m_inputs c ! i"
  let ?inp' = "?inp\<lparr>m_frame_queue := sync_loop target (m_frame_queue ?inp)\<rparr>"
  let ?f = "VideoFrame (buffer (hd (sync_loop target (m_frame_queue ?inp))))"
  from Cons.prems have j: "input it < length (m_inputs c)"
    and rest: "\<forall>it \<in> set rest. input it < length (m_inputs c)" by simp_all
  from fetch_regions_step [OF Cons.prems(5) assms(6,7)] obtain fr c1 painted frames0 where
    step: "getSyncInputFrame load c (input it) target = Inr (fr, c1)"
    and paint: "paint_region t fr (region it) = Inr painted"
    and run: "fetch_regions t load min_sync target c1 rest = Inr (frames0, c')"
    and fs: "frames = painted # frames0"
    by blast
  show ?case
  proof (cases "input it = i")
    case True
    have step': "getSyncInputFrame load c (input it) target =
        Inr (Some ?f, c\<lparr>m_inputs := (m_inputs c)[i := ?inp']\<rparr>)"
      using True getSyncInputFrame_capable [OF Cons.prems(2,3,4) assms(6)] by simp
    from step step' have fr: "fr = Some ?f"
      and c1: "c1 = c\<lparr>m_inputs := (m_inputs c)[i := ?inp']\<rparr>" by simp_all
    have len1: "length (m_inputs c1) = length (m_inputs c)" using c1 by simp
    have i1: "i < length (m_inputs c1)" using Cons.prems(2) len1 by simp
    have at: "m_inputs c1 ! i = ?inp'" using Cons.prems(2) c1 by simp
    have act1: "m_active (m_inputs c1 ! i)" using Cons.prems(3) at by simp
    have cap1: "sync_capable (m_inputs c1 ! i)"
      using Cons.prems(4) at
      by (simp add: sync_capable_def isSyncEnabled_def sync_loop_nonempty)
    have rest1: "\<forall>it \<in> set rest. input it < length (m_inputs c1)" using rest len1 by simp
    from Cons.IH [OF rest1 i1 act1 cap1 run] have
      len: "length frames0 = length rest"
      and lenc: "length (m_inputs c') = length (m_inputs c1)"
      and fin: "m_inputs c' ! i =
        (if i \<in> input ` set rest
         then (m_inputs c1 ! i)
                \<lparr>m_frame_queue := sync_loop target (m_frame_queue (m_inputs c1 ! i))\<rparr>
         else m_inputs c1 ! i)"
      and frs: "\<forall>k < length rest. input (rest ! k) = i \<longrightarrow>
          (\<exists>args. frames0 ! k =
              Some (VideoFrame (buffer (hd (sync_loop target (m_frame_queue (m_inputs c1 ! i))))),
                    args))"
      by blast+
    have fin': "m_inputs c' ! i = ?inp'"
      using fin at by (simp add: sync_loop_idem)
    have frs': "\<forall>k < length rest. input (rest ! k) = i \<longrightarrow>
          (\<exists>args. frames0 ! k = Some (?f, args))"
      using frs at by (simp add: sync_loop_idem)
    from paint fr obtain args0 where p: "painted = Some (?f, args0)"
      using paint_region_frame by blast
    have all: "\<forall>k < length (it # rest). input ((it # rest) ! k) = i \<longrightarrow>
          (\<exists>args. frames ! k = Some (?f, args))"
    proof (intro allI impI)
      fix k assume "k < length (it # rest)" and "input ((it # rest) ! k) = i"
      then show "\<exists>args. frames ! k = Some (?f, args)"
        using frs' p fs by (cases k) simp_all
    qed
    show ?thesis using fs len lenc len1 fin' all True by simp
  next
    case False
    from getSyncInputFrame_others [OF j, of load target] step have
      len1: "length (m_inputs c1) = length (m_inputs c)"
      and same: "\<forall>i. i \<noteq> input it \<longrightarrow> m_inputs c1 ! i = m_inputs c ! i"
      by auto
    from same False have at: "m_inputs c1 ! i = ?inp" by simp
    have i1: "i < length (m_inputs c1)" using Cons.prems(2) len1 by simp
    have act1: "m_active (m_inputs c1 ! i)" using Cons.prems(3) at by simp
    have cap1: "sync_capable (m_inputs c1 ! i)" using Cons.prems(4) at by simp
    have rest1: "\<forall>it \<in> set rest. input it < length (m_inputs c1)" using rest len1 by simp
    from Cons.IH [OF rest1 i1 act1 cap1 run] have
      len: "length frames0 = length rest"
      and lenc: "length (m_inputs c') = length (m_inputs c1)"
      and fin: "m_inputs c' ! i =
        (if i \<in> input ` set rest
         then (m_inputs c1 ! i)
                \<lparr>m_frame_queue := sync_loop target (m_frame_queue (m_inputs c1 ! i))\<rparr>
         else m_inputs c1 ! i)"
      and frs: "\<forall>k < length rest. input (rest ! k) = i \<longrightarrow>
          (\<exists>args. frames0 ! k =
              Some (VideoFrame (buffer (hd (sync_loop target (m_frame_queue (m_inputs c1 ! i))))),
                    args))"
      by blast+
    have all: "\<forall>k < length (it # rest). input ((it # rest) ! k) = i \<longrightarrow>
          (\<exists>args. frames ! k = Some (?f, args))"
    proof (intro allI impI)
      fix k assume "k < length (it # rest)" and "input ((it # rest) ! k) = i"
      then show "\<exists>args. frames ! k = Some (?f, args)"
        using frs at False fs by (cases k) simp_all
    qed
    have ni: "i \<noteq> input it" using False by blast
    show ?thesis using fs len lenc len1 fin at all ni by simp
  qed
qed

lemma sync_range_indices:
  "sync_range c regions acc = Inr r \<Longrightarrow> \<forall>it \<in> set regions. input it < length (m_inputs c)"
proof (induction regions arbitrary: acc)
  case Nil
  then show ?case by simp
next
  case (Cons it rest)
  obtain mn mx where acc: "acc = (mn, mx)" by (cases acc)
  from Cons.prems acc have lt: "input it < length (m_inputs c)"
    by (simp split: if_splits)
  from Cons.prems acc lt obtain acc' where "sync_range c rest acc' = Inr r"
    by (auto simp add: Let_def split: if_splits option.splits)
  then have "\<forall>it \<in> set rest. input it < length (m_inputs c)" by (rule Cons.IH)
  with lt show ?case by simp
qed

text \<open>
  C5. In a pass that runs in sync mode with target \<open>max_sync\<close>, take a region whose
  input is active with sync enabled and a non-empty queue. Whenever the pass reaches the
  region (the regions before it were fetched and painted, none of their placements
  dividing by zero), the frame chosen for it is the frame at the front of its input's
  queue as the fetch leaves the queue, and that frame has a sync timestamp at or after
  \<open>max_sync\<close> or is the only frame left in the queue. Whenever the pass gets past the
  region, and so when it completes, that frame is the one painted in the region, and it
  is still the front of the input's queue. This holds whatever the order of the
  timestamps in the queue.
\<close>

theorem sync_mode_frame_at_target:
  assumes "sync_range c regions (- 1, - 1) = Inr (min_sync, max_sync)"
    and "max_sync \<noteq> - 1"
    and "\<not> max_sync <s min_sync"
    and "k < length regions"
    and "m_active (m_inputs c ! input (regions ! k))"
    and "sync_capable (m_inputs c ! input (regions ! k))"
    and "fetch_regions t load min_sync max_sync c (take k regions) = Inr (before, c1)"
  shows "\<exists>f c2.
      getSyncInputFrame load c1 (input (regions ! k)) max_sync
        = Inr (Some (VideoFrame (buffer f)), c2)
    \<and> m_frame_queue (m_inputs c2 ! input (regions ! k)) \<noteq> []
    \<and> f = hd (m_frame_queue (m_inputs c2 ! input (regions ! k)))
    \<and> (max_sync \<le>s sync_timeStamp f
        \<or> m_frame_queue (m_inputs c2 ! input (regions ! k)) = [f])
    \<and> (\<forall>n frames c'.
          k < n \<and> fetch_regions t load min_sync max_sync c (take n regions) = Inr (frames, c')
          \<longrightarrow> (\<exists>args. frames ! k = Some (VideoFrame (buffer f), args))
              \<and> m_frame_queue (m_inputs c' ! input (regions ! k))
                  = m_frame_queue (m_inputs c2 ! input (regions ! k)))
    \<and> (\<forall>frames c'.
          layout_regions t load c regions = Inr (frames, c')
          \<longrightarrow> length frames = length regions
              \<and> (\<exists>args. frames ! k = Some (VideoFrame (buffer f), args))
              \<and> m_frame_queue (m_inputs c' ! input (regions ! k))
                  = m_frame_queue (m_inputs c2 ! input (regions ! k)))"
proof -
  let ?i = "input (regions ! k)"
  let ?q = "m_frame_queue (m_inputs c ! ?i)"
  let ?q' = "sync_loop max_sync ?q"
  let ?c2 = "c1\<lparr>m_inputs := (m_inputs c1)
                [?i := (m_inputs c1 ! ?i)
                   \<lparr>m_frame_queue := sync_loop max_sync (m_frame_queue (m_inputs c1 ! ?i))\<rparr>]\<rparr>"
  have idx: "\<forall>it \<in> set regions. input it < length (m_inputs c)"
    using assms(1) by (rule sync_range_indices)
  with assms(4) have i: "?i < length (m_inputs c)" by simp
  have sub: "\<And>n. \<forall>it \<in> set (take n regions). input it < length (m_inputs c)"
    using idx by (meson in_set_takeD)
  have ne: "?q \<noteq> []" using assms(6) by (simp add: sync_capable_def)
  then have ne': "?q' \<noteq> []" by (rule sync_loop_nonempty)
  have prefix: "\<And>n frames c'.
      fetch_regions t load min_sync max_sync c (take n regions) = Inr (frames, c') \<Longrightarrow>
      length frames = min n (length regions)
    \<and> length (m_inputs c') = length (m_inputs c)
    \<and> m_inputs c' ! ?i =
        (if ?i \<in> input ` set (take n regions)
         then (m_inputs c ! ?i)\<lparr>m_frame_queue := ?q'\<rparr>
         else m_inputs c ! ?i)
    \<and> (\<forall>k' < length (take n regions). input (take n regions ! k') = ?i \<longrightarrow>
          (\<exists>args. frames ! k' = Some (VideoFrame (buffer (hd ?q')), args)))"
  proof -
    fix n frames c'
    assume "fetch_regions t load min_sync max_sync c (take n regions) = Inr (frames, c')"
    from fetch_regions_sync_run [OF sub i assms(5,6) this assms(2,3)]
    show "length frames = min n (length regions)
    \<and> length (m_inputs c') = length (m_inputs c)
    \<and> m_inputs c' ! ?i =
        (if ?i \<in> input ` set (take n regions)
         then (m_inputs c ! ?i)\<lparr>m_frame_queue := ?q'\<rparr>
         else m_inputs c ! ?i)
    \<and> (\<forall>k' < length (take n regions). input (take n regions ! k') = ?i \<longrightarrow>
          (\<exists>args. frames ! k' = Some (VideoFrame (buffer (hd ?q')), args)))"
      by (simp add: min.commute)
  qed
  from prefix [OF assms(7)] have len1: "length (m_inputs c1) = length (m_inputs c)"
    and at1: "m_inputs c1 ! ?i = (m_inputs c ! ?i)\<lparr>m_frame_queue := ?q'\<rparr>
                \<or> m_inputs c1 ! ?i = m_inputs c ! ?i"
    by (simp_all split: if_splits)
  have i1: "?i < length (m_inputs c1)" using i len1 by simp
  have act1: "m_active (m_inputs c1 ! ?i)" using at1 assms(5) by auto
  have cap1: "sync_capable (m_inputs c1 ! ?i)"
    using at1 assms(6) ne'
    by (auto simp add: sync_capable_def isSyncEnabled_def)
  have q1: "sync_loop max_sync (m_frame_queue (m_inputs c1 ! ?i)) = ?q'"
    using at1 by (auto simp add: sync_loop_idem)
  have fetch: "getSyncInputFrame load c1 ?i max_sync
      = Inr (Some (VideoFrame (buffer (hd ?q'))), ?c2)"
    using getSyncInputFrame_capable [OF i1 act1 cap1 assms(2), of load] q1 by simp
  have q2: "m_frame_queue (m_inputs ?c2 ! ?i) = ?q'" using i1 q1 by simp
  have post: "max_sync \<le>s sync_timeStamp (hd ?q') \<or> length ?q' = 1"
    using ne by (rule sync_loop_post)
  have single: "length ?q' = 1 \<Longrightarrow> ?q' = [hd ?q']"
    by (cases ?q') simp_all
  from post single have post': "max_sync \<le>s sync_timeStamp (hd ?q') \<or> ?q' = [hd ?q']"
    by blast
  have later: "\<And>n frames c'. k < n \<Longrightarrow>
      fetch_regions t load min_sync max_sync c (take n regions) = Inr (frames, c') \<Longrightarrow>
      (\<exists>args. frames ! k = Some (VideoFrame (buffer (hd ?q')), args))
      \<and> m_frame_queue (m_inputs c' ! ?i) = ?q'"
  proof -
    fix n frames c'
    assume kn: "k < n"
      and run: "fetch_regions t load min_sync max_sync c (take n regions) = Inr (frames, c')"
    have kl: "k < length (take n regions)" using kn assms(4) by simp
    have nth: "take n regions ! k = regions ! k" using kn by simp
    have mem: "?i \<in> input ` set (take n regions)"
      using kl nth by (metis imageI nth_mem)
    from prefix [OF run] have
      fin: "m_inputs c' ! ?i =
        (if ?i \<in> input ` set (take n regions)
         then (m_inputs c ! ?i)\<lparr>m_frame_queue := ?q'\<rparr>
         else m_inputs c ! ?i)"
      and frs: "\<forall>k' < length (take n regions). input (take n regions ! k') = ?i \<longrightarrow>
          (\<exists>args. frames ! k' = Some (VideoFrame (buffer (hd ?q')), args))"
      by blast+
    from frs kl nth have "\<exists>args. frames ! k = Some (VideoFrame (buffer (hd ?q')), args)"
      by simp
    moreover from fin mem have "m_frame_queue (m_inputs c' ! ?i) = ?q'" by simp
    ultimately show "(\<exists>args. frames ! k = Some (VideoFrame (buffer (hd ?q')), args))
      \<and> m_frame_queue (m_inputs c' ! ?i) = ?q'" by simp
  qed
  have whole: "\<And>frames c'. layout_regions t load c regions = Inr (frames, c') \<Longrightarrow>
      length frames = length regions
      \<and> (\<exists>args. frames ! k = Some (VideoFrame (buffer (hd ?q')), args))
      \<and> m_frame_queue (m_inputs c' ! ?i) = ?q'"
  proof -
    fix frames c'
    assume "layout_regions t load c regions = Inr (frames, c')"
    then have run: "fetch_regions t load min_sync max_sync c (take (length regions) regions)
        = Inr (frames, c')"
      using assms(1) by (simp add: layout_regions_def)
    from prefix [OF run] have "length frames = length regions" by simp
    with later [OF assms(4) run] show "length frames = length regions
      \<and> (\<exists>args. frames ! k = Some (VideoFrame (buffer (hd ?q')), args))
      \<and> m_frame_queue (m_inputs c' ! ?i) = ?q'" by simp
  qed
  have "getSyncInputFrame load c1 ?i max_sync = Inr (Some (VideoFrame (buffer (hd ?q'))), ?c2)
    \<and> m_frame_queue (m_inputs ?c2 ! ?i) \<noteq> []
    \<and> hd ?q' = hd (m_frame_queue (m_inputs ?c2 ! ?i))
    \<and> (max_sync \<le>s sync_timeStamp (hd ?q') \<or> m_frame_queue (m_inputs ?c2 ! ?i) = [hd ?q'])
    \<and> (\<forall>n frames c'.
          k < n \<and> fetch_regions t load min_sync max_sync c (take n regions) = Inr (frames, c')
          \<longrightarrow> (\<exists>args. frames ! k = Some (VideoFrame (buffer (hd ?q')), args))
              \<and> m_frame_queue (m_inputs c' ! ?i) = m_frame_queue (m_inputs ?c2 ! ?i))
    \<and> (\<forall>frames c'.
          layout_regions t load c regions = Inr (frames, c')
          \<longrightarrow> length frames = length regions
              \<and> (\<exists>args. frames ! k = Some (VideoFrame (buffer (hd ?q')), args))
              \<and> m_frame_queue (m_inputs c' ! ?i) = m_frame_queue (m_inputs ?c2 ! ?i))"
    unfolding q2 using fetch ne' post' later whole by blast
  then show ?thesis by blast
qed

theorem sync_mode_frame_at_target_witness:
  "sync_range mixed_compositor mixed_layout (- 1, - 1) = Inr (150, 200)
   \<and> (200 :: int64_t) \<noteq> - 1 \<and> \<not> (200 :: int64_t) <s 150
   \<and> 1 < length mixed_layout
   \<and> m_active (m_inputs mixed_compositor ! input (mixed_layout ! 1))
   \<and> sync_capable (m_inputs mixed_compositor ! input (mixed_layout ! 1))
   \<and> fetch_regions canvas no_image 150 200 mixed_compositor (take 1 mixed_layout) =
       Inr ([Some (VideoFrame 2, painted_at 0 120 320 240)],
            compositor_of
              [sync_input [sync_frame 2 200],
               sync_input [sync_frame 3 150, sync_frame 4 250], SoftInput_new])
   \<and> getSyncInputFrame no_image
         (compositor_of
            [sync_input [sync_frame 2 200],
             sync_input [sync_frame 3 150, sync_frame 4 250], SoftInput_new])
         (input (mixed_layout ! 1)) 200 =
       Inr (Some (VideoFrame (buffer (sync_frame 4 250))),
            compositor_of
              [sync_input [sync_frame 2 200], sync_input [sync_frame 4 250], SoftInput_new])
   \<and> (200 :: int64_t) \<le>s sync_timeStamp (sync_frame 4 250)
   \<and> layout_regions canvas no_image mixed_compositor mixed_layout =
       Inr ([Some (VideoFrame 2, painted_at 0 120 320 240),
             Some (VideoFrame 4, painted_at 320 120 320 240), None],
            compositor_of
              [sync_input [sync_frame 2 200], sync_input [sync_frame 4 250], SoftInput_new])"
  using sync_mode_frame_at_target
          [where c = mixed_compositor and regions = mixed_layout and min_sync = 150
             and max_sync = 200 and k = 1 and t = canvas and load = no_image
             and before = "[Some (VideoFrame 2, painted_at 0 120 320 240)]"
             and ?c1.0 = "compositor_of
              [sync_input [sync_frame 2 200],
               sync_input [sync_frame 3 150, sync_frame 4 250], SoftInput_new]"]
  by (simp add: pass_eval mixed_compositor_def mixed_layout_def)

text \<open>
  In the cropped pass over \<open>late_flat_layout\<close> region 0 is fetched and painted and the
  pass reaches region 1, whose frame is chosen as above; the placement of region 1 then
  divides by zero and the pass paints nothing more.
\<close>

lemma sync_pass_reaches_flat_region:
  "sync_range s3_compositor late_flat_layout (- 1, - 1) = Inr (250, 400)
   \<and> fetch_regions crop_canvas no_image 250 400 s3_compositor (take 1 late_flat_layout) =
       Inr ([Some (VideoFrame 4,
               \<lparr>arg_src_x = 80, arg_src_y = 0, arg_src_width = 160, arg_src_height = 240,
                arg_dst_x = 0, arg_dst_y = 0, arg_dst_width = 320, arg_dst_height = 480\<rparr>)],
            compositor_of
              [sync_input [sync_frame 4 400],
               sync_input [sync_frame 11 250, sync_frame 12 350, sync_frame 13 450]])
   \<and> getSyncInputFrame no_image
         (compositor_of
            [sync_input [sync_frame 4 400],
             sync_input [sync_frame 11 250, sync_frame 12 350, sync_frame 13 450]])
         1 400 =
       Inr (Some (VideoFrame 13),
            compositor_of [sync_input [sync_frame 4 400], sync_input [sync_frame 13 450]])
   \<and> layout_regions crop_canvas no_image s3_compositor late_flat_layout
       = Inl DivisionByZero"
  by (simp add: pass_eval s3_compositor_def late_flat_layout_def)

section \<open>Inactive inputs hold no frames\<close>

lemma input_inv_new: "input_inv SoftInput_new"
  by (simp add: input_inv_def SoftInput_new_def)

lemma apply_op_input_inv:
  "input_inv inp \<Longrightarrow> apply_op inp x = Inr inp' \<Longrightarrow> input_inv inp'"
  by (cases x)
    (auto simp add: input_inv_def setActive_def pushInput_def popInput_def get_sync_frame_def
       Let_def split: if_splits)

lemma run_ops_input_inv:
  "input_inv inp \<Longrightarrow> run_ops inp ops = Inr inp' \<Longrightarrow> input_inv inp'"
proof (induction ops arbitrary: inp)
  case Nil
  then show ?case by simp
next
  case (Cons x xs)
  then show ?case
    by (auto split: sum.splits dest: apply_op_input_inv)
qed

section \<open>Frame-rate quantisation\<close>

lemma unat_double:
  "unat n < 2 ^ 31 \<Longrightarrow> unat (n * 2 :: uint32_t) = 2 * unat n"
  by (simp add: unat_word_ariths)

lemma fps_loop_nowrap:
  assumes "0 < unat fps" and "unat maxFps < 2 ^ 31"
  shows "\<exists>r j. fps_loop maxFps fps = Some r
    \<and> unat r = unat fps * 2 ^ j
    \<and> unat maxFps \<le> unat r
    \<and> (\<forall>i < j. unat fps * 2 ^ i < unat maxFps)"
  using assms(1)
proof (induction "unat maxFps - unat fps" arbitrary: fps rule: less_induct)
  case less
  show ?case
  proof (cases "fps \<le> maxFps")
    case False
    then have "fps_loop maxFps fps = Some fps"
      by (subst fps_loop.simps) simp
    moreover from False have "unat maxFps \<le> unat fps"
      by (simp add: word_le_nat_alt)
    ultimately have "fps_loop maxFps fps = Some fps \<and> unat fps = unat fps * 2 ^ 0
        \<and> unat maxFps \<le> unat fps \<and> (\<forall>i < (0::nat). unat fps * 2 ^ i < unat maxFps)"
      by simp
    then show ?thesis by blast
  next
    case True
    show ?thesis
    proof (cases "fps = maxFps")
      case eq: True
      then have "fps_loop maxFps fps = Some fps"
        by (subst fps_loop.simps) simp
      with eq have "fps_loop maxFps fps = Some fps \<and> unat fps = unat fps * 2 ^ 0
          \<and> unat maxFps \<le> unat fps \<and> (\<forall>i < (0::nat). unat fps * 2 ^ i < unat maxFps)"
        by simp
      then show ?thesis by blast
    next
      case ne: False
      from True ne have lt: "unat fps < unat maxFps"
        by (simp add: word_le_nat_alt word_unat_eq_iff)
      with assms(2) have small: "unat fps < 2 ^ 31" by simp
      then have dbl: "unat (fps * 2) = 2 * unat fps" by (rule unat_double)
      have unfold: "fps_loop maxFps fps = fps_loop maxFps (fps * 2)"
        using True ne by (subst fps_loop.simps) simp
      have "unat maxFps - unat (fps * 2) < unat maxFps - unat fps"
        using dbl lt less.prems by simp
      moreover have "0 < unat (fps * 2)" using dbl less.prems by simp
      ultimately obtain r j where
        r: "fps_loop maxFps (fps * 2) = Some r"
        and ur: "unat r = unat (fps * 2) * 2 ^ j"
        and ge: "unat maxFps \<le> unat r"
        and below: "\<forall>i < j. unat (fps * 2) * 2 ^ i < unat maxFps"
        using less.hyps by blast
      have below': "\<forall>i < Suc j. unat fps * 2 ^ i < unat maxFps"
      proof (intro allI impI)
        fix i assume "i < Suc j"
        then show "unat fps * 2 ^ i < unat maxFps"
          using below lt dbl by (cases i) (simp_all add: mult.assoc mult.left_commute)
      qed
      have "fps_loop maxFps fps = Some r \<and> unat r = unat fps * 2 ^ Suc j
          \<and> unat maxFps \<le> unat r \<and> (\<forall>i < Suc j. unat fps * 2 ^ i < unat maxFps)"
        using unfold r ur ge below' dbl by (simp add: mult.assoc mult.left_commute)
      then show ?thesis by blast
    qed
  qed
qed

lemma isSupported_loop_nowrap:
  assumes "0 < unat n" and "unat maxFps < 2 ^ 31"
  shows "isSupported_loop maxFps f n =
    Some (\<exists>j. unat f = unat n * 2 ^ j \<and> unat f \<le> unat maxFps)"
  using assms(1)
proof (induction "unat maxFps - unat n" arbitrary: n rule: less_induct)
  case less
  show ?case
  proof (cases "n \<le> maxFps")
    case False
    then have gt: "unat maxFps < unat n" by (simp add: word_le_nat_alt)
    have "\<not> (\<exists>j. unat f = unat n * 2 ^ j \<and> unat f \<le> unat maxFps)"
    proof
      assume "\<exists>j. unat f = unat n * 2 ^ j \<and> unat f \<le> unat maxFps"
      then obtain j where "unat f = unat n * 2 ^ j" and "unat f \<le> unat maxFps" by blast
      moreover have "unat n \<le> unat n * 2 ^ j" by simp
      ultimately show False using gt by simp
    qed
    moreover have "isSupported_loop maxFps f n = Some False"
      using False by (subst isSupported_loop.simps) simp
    ultimately show ?thesis by simp
  next
    case True
    then have le: "unat n \<le> unat maxFps" by (simp add: word_le_nat_alt)
    show ?thesis
    proof (cases "n = f")
      case eq: True
      then have "isSupported_loop maxFps f n = Some True"
        using True by (subst isSupported_loop.simps) simp
      moreover have "unat f = unat n * 2 ^ 0 \<and> unat f \<le> unat maxFps"
        using eq le by simp
      then have "\<exists>j. unat f = unat n * 2 ^ j \<and> unat f \<le> unat maxFps" by blast
      ultimately show ?thesis by simp
    next
      case ne: False
      from le assms(2) have small: "unat n < 2 ^ 31" by simp
      then have dbl: "unat (n * 2) = 2 * unat n" by (rule unat_double)
      have unfold: "isSupported_loop maxFps f n = isSupported_loop maxFps f (n * 2)"
        using True ne by (subst isSupported_loop.simps) simp
      have pos: "0 < unat (n * 2)" using dbl less.prems by simp
      have rec: "isSupported_loop maxFps f (n * 2) =
          Some (\<exists>j. unat f = unat (n * 2) * 2 ^ j \<and> unat f \<le> unat maxFps)"
      proof (cases "unat n < unat maxFps")
        case True
        then have "unat maxFps - unat (n * 2) < unat maxFps - unat n"
          using dbl less.prems by simp
        then show ?thesis using less.hyps pos by blast
      next
        case False
        with le have "unat n = unat maxFps" by simp
        then have gt: "unat maxFps < unat (n * 2)" using dbl less.prems by simp
        then have "\<not> n * 2 \<le> maxFps" by (simp add: word_le_nat_alt)
        then have "isSupported_loop maxFps f (n * 2) = Some False"
          by (subst isSupported_loop.simps) simp
        moreover have "\<not> (\<exists>j. unat f = unat (n * 2) * 2 ^ j \<and> unat f \<le> unat maxFps)"
        proof
          assume "\<exists>j. unat f = unat (n * 2) * 2 ^ j \<and> unat f \<le> unat maxFps"
          then obtain j where "unat f = unat (n * 2) * 2 ^ j" and "unat f \<le> unat maxFps"
            by blast
          moreover have "unat (n * 2) \<le> unat (n * 2) * 2 ^ j" by simp
          ultimately show False using gt by simp
        qed
        ultimately show ?thesis by simp
      qed
      have "(\<exists>j. unat f = unat (n * 2) * 2 ^ j \<and> unat f \<le> unat maxFps)
          = (\<exists>j. unat f = unat n * 2 ^ j \<and> unat f \<le> unat maxFps)"
      proof
        assume "\<exists>j. unat f = unat (n * 2) * 2 ^ j \<and> unat f \<le> unat maxFps"
        then obtain j where "unat f = unat (n * 2) * 2 ^ j" and b: "unat f \<le> unat maxFps"
          by blast
        then have "unat f = unat n * 2 ^ Suc j" using dbl by simp
        with b show "\<exists>j. unat f = unat n * 2 ^ j \<and> unat f \<le> unat maxFps" by blast
      next
        assume "\<exists>j. unat f = unat n * 2 ^ j \<and> unat f \<le> unat maxFps"
        then obtain j where j: "unat f = unat n * 2 ^ j" and b: "unat f \<le> unat maxFps"
          by blast
        from ne have "unat f \<noteq> unat n" by (simp add: word_unat_eq_iff)
        with j have "j \<noteq> 0" by (cases j) simp_all
        then obtain j' where "j = Suc j'" by (cases j) simp_all
        with j have "unat f = unat (n * 2) * 2 ^ j'" using dbl by simp
        with b show "\<exists>j. unat f = unat (n * 2) * 2 ^ j \<and> unat f \<le> unat maxFps" by blast
      qed
      with unfold rec show ?thesis by simp
    qed
  qed
qed

lemma power_of_two_band:
  assumes "unat r = unat minFps * 2 ^ j"
    and "unat maxFps \<le> unat r"
    and "\<forall>i < j. unat minFps * 2 ^ i < unat maxFps"
    and "0 < unat minFps"
  shows "(\<exists>k. unat maxFps = unat minFps * 2 ^ k) \<longleftrightarrow> r = maxFps"
proof
  assume "r = maxFps"
  with assms(1) show "\<exists>k. unat maxFps = unat minFps * 2 ^ k" by blast
next
  assume "\<exists>k. unat maxFps = unat minFps * 2 ^ k"
  then obtain k where k: "unat maxFps = unat minFps * 2 ^ k" by blast
  have "\<not> k < j" using assms(3) k by auto
  then have "j \<le> k" by simp
  then have "(2::nat) ^ j \<le> 2 ^ k" by simp
  then have "unat r \<le> unat maxFps" using assms(1) k by simp
  with assms(2) have "unat r = unat maxFps" by simp
  then show "r = maxFps" by (simp add: word_unat_eq_iff)
qed

lemma fps_loop_zero:
  assumes "fps_loop maxFps fps = Some r"
  shows "fps = 0 \<longrightarrow> maxFps = 0"
proof (rule fps_loop.raw_induct
    [where P = "\<lambda>m f y. f = 0 \<longrightarrow> m = 0" and maxFps = maxFps and fps = fps and y = r])
  fix g :: "uint32_t \<Rightarrow> uint32_t \<Rightarrow> uint32_t option" and m f y
  assume IH: "\<And>a b c. g a b = Some c \<Longrightarrow> b = 0 \<longrightarrow> a = 0"
    and body: "(if f \<le> m then if f = m then Some f else g m (f * 2) else Some f) = Some y"
  show "f = 0 \<longrightarrow> m = 0"
  proof
    assume z: "f = 0"
    show "m = 0"
    proof (rule ccontr)
      assume "m \<noteq> 0"
      with z body have "g m 0 = Some y" by simp
      with IH have "m = 0" by blast
      with \<open>m \<noteq> 0\<close> show False by simp
    qed
  qed
next
  show "fps_loop maxFps fps = Some r" by (fact assms)
qed

lemma fps_loop_diverges: "maxFps \<noteq> 0 \<Longrightarrow> fps_loop maxFps 0 = None"
  using fps_loop_zero [of maxFps 0] by (cases "fps_loop maxFps 0") auto

text \<open>
  C7 (amended). For a generator constructed with \<open>0 < minFps\<close> and \<open>maxFps < 2 ^ 31\<close>
  (so that doubling a rate within the band does not wrap): the constructor returns; if
  \<open>maxFps = minFps * 2 ^ k\<close> for some \<open>k\<close>, the band is kept and \<open>isSupported\<close> returns
  true exactly for the rates \<open>minFps * 2 ^ k \<le> maxFps\<close>; otherwise \<open>maxFps\<close> becomes
  \<open>minFps\<close> and \<open>isSupported\<close> returns true exactly for \<open>minFps\<close>.
\<close>

theorem generator_supported_rates:
  assumes "0 < unat minFps" and "unat maxFps < 2 ^ 31"
  shows "\<exists>g :: 'd SoftFrameGenerator.
      SoftFrameGenerator_new maxFps minFps = Some (Inr g)
    \<and> m_minSupportedFps g = minFps
    \<and> ((\<exists>k. unat maxFps = unat minFps * 2 ^ k) \<longrightarrow>
          m_maxSupportedFps g = maxFps
          \<and> (\<forall>w h f. isSupported g w h f =
                Some (unat f \<in> supported_fps (unat maxFps) (unat minFps))))
    \<and> (\<not> (\<exists>k. unat maxFps = unat minFps * 2 ^ k) \<longrightarrow>
          m_maxSupportedFps g = minFps
          \<and> (\<forall>w h f. isSupported g w h f = Some (f = minFps)))"
proof -
  from fps_loop_nowrap [OF assms] obtain r j where
    r: "fps_loop maxFps minFps = Some r"
    and ur: "unat r = unat minFps * 2 ^ j"
    and ge: "unat maxFps \<le> unat r"
    and below: "\<forall>i < j. unat minFps * 2 ^ i < unat maxFps"
    by blast
  have band: "(\<exists>k. unat maxFps = unat minFps * 2 ^ k) \<longleftrightarrow> r = maxFps"
    using ur ge below assms(1) by (rule power_of_two_band)
  have nz: "minFps \<noteq> 0" using assms(1) by auto
  let ?maxS = "if maxFps < r then minFps else maxFps"
  let ?g = "\<lparr>m_maxSupportedFps = ?maxS, m_minSupportedFps = minFps, m_counter = 0,
             m_counterMax = ?maxS div minFps,
             m_outputs = replicate (unat (?maxS div minFps)) []\<rparr> :: 'd SoftFrameGenerator"
  have new: "SoftFrameGenerator_new maxFps minFps = Some (Inr ?g)"
    using r nz by (simp add: SoftFrameGenerator_new_def Let_def)
  have keep: "(\<exists>k. unat maxFps = unat minFps * 2 ^ k) \<longrightarrow>
          m_maxSupportedFps ?g = maxFps
          \<and> (\<forall>w h f. isSupported ?g w h f =
                Some (unat f \<in> supported_fps (unat maxFps) (unat minFps)))"
  proof
    assume "\<exists>k. unat maxFps = unat minFps * 2 ^ k"
    with band have eq: "r = maxFps" by simp
    then have m: "m_maxSupportedFps ?g = maxFps" by simp
    have "isSupported ?g w h f = Some (unat f \<in> supported_fps (unat maxFps) (unat minFps))"
      for w h f
    proof (cases "maxFps < f \<or> f < minFps")
      case True
      have "unat f \<notin> supported_fps (unat maxFps) (unat minFps)"
      proof
        assume "unat f \<in> supported_fps (unat maxFps) (unat minFps)"
        then obtain k where k: "unat f = unat minFps * 2 ^ k" and le: "unat f \<le> unat maxFps"
          by (auto simp add: supported_fps_def)
        have "unat minFps \<le> unat minFps * 2 ^ k" by simp
        with k le True show False by (auto simp add: word_less_nat_alt)
      qed
      with True eq show ?thesis by (simp add: isSupported_def)
    next
      case False
      with eq have "isSupported ?g w h f = isSupported_loop maxFps f minFps"
        by (simp add: isSupported_def)
      also have "\<dots> = Some (\<exists>j. unat f = unat minFps * 2 ^ j \<and> unat f \<le> unat maxFps)"
        using assms by (rule isSupported_loop_nowrap)
      finally show ?thesis by (simp add: supported_fps_def)
    qed
    with m show "m_maxSupportedFps ?g = maxFps
          \<and> (\<forall>w h f. isSupported ?g w h f =
                Some (unat f \<in> supported_fps (unat maxFps) (unat minFps)))"
      by blast
  qed
  have degrade: "\<not> (\<exists>k. unat maxFps = unat minFps * 2 ^ k) \<longrightarrow>
          m_maxSupportedFps ?g = minFps
          \<and> (\<forall>w h f. isSupported ?g w h f = Some (f = minFps))"
  proof
    assume "\<not> (\<exists>k. unat maxFps = unat minFps * 2 ^ k)"
    with band have "r \<noteq> maxFps" by simp
    with ge have gt: "maxFps < r"
      by (simp add: word_less_nat_alt word_unat_eq_iff)
    then have m: "m_maxSupportedFps ?g = minFps" by simp
    have "isSupported ?g w h f = Some (f = minFps)" for w h f
    proof (cases "f = minFps")
      case True
      have "isSupported_loop minFps minFps minFps = Some True"
        by (subst isSupported_loop.simps) simp
      with True gt show ?thesis by (simp add: isSupported_def)
    next
      case False
      then have "minFps < f \<or> f < minFps" by auto
      with False gt show ?thesis by (simp add: isSupported_def)
    qed
    with m show "m_maxSupportedFps ?g = minFps
          \<and> (\<forall>w h f. isSupported ?g w h f = Some (f = minFps))"
      by blast
  qed
  have "SoftFrameGenerator_new maxFps minFps = Some (Inr ?g) \<and> m_minSupportedFps ?g = minFps"
    using new by simp
  with keep degrade show ?thesis by blast
qed


lemma replicate_buckets:
  "replicate 4 x = [x, x, x, x]" "replicate 3 x = [x, x, x]" "replicate 2 x = [x, x]"
  by (simp_all add: numeral_eq_Suc)

theorem generator_supported_rates_witness:
  "0 < unat (15 :: uint32_t) \<and> unat (60 :: uint32_t) < 2 ^ 31
   \<and> unat (60 :: uint32_t) = unat (15 :: uint32_t) * 2 ^ 2
   \<and> SoftFrameGenerator_new 60 15 = Some (Inr band_60_15)
   \<and> isSupported band_60_15 640 480 30 = Some True
   \<and> isSupported band_60_15 640 480 45 = Some False
   \<and> unat (50 :: uint32_t) < 2 ^ 31
   \<and> SoftFrameGenerator_new 50 15 = Some (Inr band_15_15)
   \<and> isSupported band_15_15 640 480 15 = Some True
   \<and> isSupported band_15_15 640 480 30 = Some False"
  using generator_supported_rates [where 'd = nat and minFps = 15 and maxFps = 60]
        generator_supported_rates [where 'd = nat and minFps = 15 and maxFps = 50]
  by (simp add: SoftFrameGenerator_new_def fps_loop.simps isSupported_def
        isSupported_loop.simps band_60_15_def band_15_15_def replicate_buckets)

lemma not_in_wrap_band:
  "(2147483648 :: nat) \<notin> supported_fps 3221225472 1610612736"
proof
  assume "(2147483648 :: nat) \<in> supported_fps 3221225472 1610612736"
  then obtain k where k: "(2147483648 :: nat) = 1610612736 * 2 ^ k"
    by (auto simp add: supported_fps_def)
  show False
  proof (cases k)
    case 0
    with k show False by simp
  next
    case (Suc k')
    have "(1::nat) \<le> 2 ^ k'" by simp
    then have ge: "(3221225472 :: nat) \<le> 1610612736 * 2 ^ Suc k'" by simp
    have k2: "(2147483648 :: nat) = 1610612736 * 2 ^ Suc k'" using k unfolding Suc .
    from ge k2 show False by linarith
  qed
qed

text \<open>
  As the specification states it, the property fails at the ends of \<^verbatim>\<open>uint32_t\<close>. In the band (3221225472,
  1610612736), whose ratio is the power of two 2, \<open>isSupported\<close> doubles 3221225472 past
  \<open>2 ^ 32\<close> to 2147483648 and accepts that rate, which is not \<open>minFps * 2 ^ k\<close> for
  any \<open>k\<close>. With \<open>minFps = 0\<close> the constructor's loop never ends when \<open>maxFps\<close> is
  not 0, and divides by zero when it is.
\<close>

theorem generator_wrap_counterexample:
  "SoftFrameGenerator_new 3221225472 1610612736 = Some (Inr band_wrap)
   \<and> unat (3221225472 :: uint32_t) = unat (1610612736 :: uint32_t) * 2 ^ 1
   \<and> isSupported band_wrap 640 480 2147483648 = Some True
   \<and> unat (2147483648 :: uint32_t)
        \<notin> supported_fps (unat (3221225472 :: uint32_t)) (unat (1610612736 :: uint32_t))
   \<and> (SoftFrameGenerator_new 30 0 :: (error + nat SoftFrameGenerator) option) = None
   \<and> (SoftFrameGenerator_new 0 0 :: (error + nat SoftFrameGenerator) option)
        = Some (Inl DivisionByZero)"
proof -
  have a: "SoftFrameGenerator_new 3221225472 1610612736 = Some (Inr band_wrap)"
    by (simp add: SoftFrameGenerator_new_def fps_loop.simps band_wrap_def replicate_buckets)
  have b: "isSupported band_wrap 640 480 2147483648 = Some True"
    by (simp add: isSupported_def isSupported_loop.simps band_wrap_def)
  have c: "unat (2147483648 :: uint32_t)
        \<notin> supported_fps (unat (3221225472 :: uint32_t)) (unat (1610612736 :: uint32_t))"
    using not_in_wrap_band by simp
  have d: "(SoftFrameGenerator_new 30 0 :: (error + nat SoftFrameGenerator) option) = None"
    by (simp add: SoftFrameGenerator_new_def fps_loop_diverges)
  have e: "(SoftFrameGenerator_new 0 0 :: (error + nat SoftFrameGenerator) option)
        = Some (Inl DivisionByZero)"
    by (simp add: SoftFrameGenerator_new_def fps_loop.simps)
  from a b c d e show ?thesis by simp
qed

text \<open>
  The band is kept only when \<open>maxFps\<close> is exactly \<open>minFps * 2 ^ k\<close>: the band
  (31, 15), whose integer quotient is 2, collapses to (15, 15).
\<close>

lemma band_31_15_collapses:
  "SoftFrameGenerator_new 31 15 = Some (Inr band_15_15) \<and> (31 :: uint32_t) div 15 = 2"
  by (simp add: SoftFrameGenerator_new_def fps_loop.simps band_15_15_def)

section \<open>Outputs, buckets and ticks\<close>

lemma deliverFrame_set:
  "set (deliverFrame i counter buckets) =
     {out. \<exists>j < length buckets. out \<in> set (buckets ! j) \<and> unat counter mod (i + j + 1) = 0}"
proof (induction buckets arbitrary: i)
  case Nil
  then show ?case by simp
next
  case (Cons bucket rest)
  have split: "{out. \<exists>j < length (bucket # rest).
                  out \<in> set ((bucket # rest) ! j) \<and> unat counter mod (i + j + 1) = 0}
      = {out. out \<in> set bucket \<and> unat counter mod (i + 1) = 0}
        \<union> {out. \<exists>j < length rest. out \<in> set (rest ! j) \<and> unat counter mod (Suc i + j + 1) = 0}"
    by (auto simp add: less_Suc_eq_0_disj)
  show ?case
    unfolding split using Cons.IH [of "i + 1"] by auto
qed

lemma no_valid_output:
  "\<not> hasValidOutput i counter buckets \<Longrightarrow> deliverFrame i counter buckets = []"
  by (induction buckets arbitrary: i) (auto split: if_splits)

lemma onTimeout_composite:
  assumes "m_counterMax g \<noteq> 0"
  shows "onTimeout g (Some frame) =
    Inr (map (\<lambda>it. (it, frame)) (deliverFrame 0 (m_counter g) (m_outputs g)),
         g\<lparr>m_counter := (m_counter g + 1) mod m_counterMax g\<rparr>)"
  using assms
  by (cases "hasValidOutput 0 (m_counter g) (m_outputs g)")
    (simp_all add: onTimeout_def no_valid_output)

lemma band_quotient:
  fixes m :: nat
  assumes "0 < m" and "M = m * 2 ^ k" and "f = m * 2 ^ j" and "f \<le> M"
  shows "j \<le> k \<and> M div f = 2 ^ (k - j) \<and> M div m = 2 ^ k"
proof -
  from assms have "(2::nat) ^ j \<le> 2 ^ k" by simp
  then have jk: "j \<le> k" by simp
  then have "(2::nat) ^ k = 2 ^ j * 2 ^ (k - j)"
    by (simp flip: power_add)
  then have "M = f * 2 ^ (k - j)" using assms(2,3) by (simp add: mult.assoc)
  moreover have "0 < f" using assms(1,3) by simp
  ultimately have "M div f = 2 ^ (k - j)" by simp
  moreover have "M div m = 2 ^ k" using assms(1,2) by simp
  ultimately show ?thesis using jk by simp
qed

lemma isSupported_loop_hit:
  "unat f = unat n * 2 ^ i \<Longrightarrow> f \<le> maxFps \<Longrightarrow> isSupported_loop maxFps f n = Some True"
proof (induction i arbitrary: n)
  case 0
  then have "n = f" by (simp add: word_unat_eq_iff)
  with 0 show ?case by (subst isSupported_loop.simps) simp
next
  case (Suc i)
  have "unat n \<le> unat n * 2 ^ Suc i" by simp
  also have "\<dots> = unat f" using Suc.prems(1) by simp
  also have "\<dots> \<le> unat maxFps" using Suc.prems(2) by (simp add: word_le_nat_alt)
  finally have le: "n \<le> maxFps" by (simp add: word_le_nat_alt)
  show ?case
  proof (cases "n = f")
    case True
    with le show ?thesis by (subst isSupported_loop.simps) simp
  next
    case False
    have "unat n * 2 \<le> unat n * 2 ^ Suc i" by simp
    also have "\<dots> = unat f" using Suc.prems(1) by simp
    also have "\<dots> < 2 ^ 32" using unsigned_less [of f, where 'a = nat] by simp
    finally have "unat (n * 2) = unat n * 2" by (simp add: unat_word_ariths)
    with Suc.prems(1) have "unat f = unat (n * 2) * 2 ^ i" by simp
    then have "isSupported_loop maxFps f (n * 2) = Some True"
      using Suc.prems(2) by (rule Suc.IH)
    with le False show ?thesis by (subst isSupported_loop.simps) simp
  qed
qed

lemma generator_invD:
  assumes "generator_inv g"
  shows "0 < unat (m_minSupportedFps g)"
    and "\<exists>k. unat (m_maxSupportedFps g) = unat (m_minSupportedFps g) * 2 ^ k"
    and "m_counterMax g = m_maxSupportedFps g div m_minSupportedFps g"
    and "length (m_outputs g) = unat (m_counterMax g)"
    and "unat (m_counter g) < unat (m_counterMax g)"
    and "\<And>i out. i < length (m_outputs g) \<Longrightarrow> out \<in> set (m_outputs g ! i) \<Longrightarrow>
          (\<exists>j. unat (output_fps out) = unat (m_minSupportedFps g) * 2 ^ j)
          \<and> output_fps out \<le> m_maxSupportedFps g
          \<and> unat (m_maxSupportedFps g div output_fps out) = i + 1"
  using assms unfolding generator_inv_def by blast+

lemma generator_invI:
  assumes "0 < unat (m_minSupportedFps g)"
    and "\<exists>k. unat (m_maxSupportedFps g) = unat (m_minSupportedFps g) * 2 ^ k"
    and "m_counterMax g = m_maxSupportedFps g div m_minSupportedFps g"
    and "length (m_outputs g) = unat (m_counterMax g)"
    and "unat (m_counter g) < unat (m_counterMax g)"
    and "\<And>i out. i < length (m_outputs g) \<Longrightarrow> out \<in> set (m_outputs g ! i) \<Longrightarrow>
          (\<exists>j. unat (output_fps out) = unat (m_minSupportedFps g) * 2 ^ j)
          \<and> output_fps out \<le> m_maxSupportedFps g
          \<and> unat (m_maxSupportedFps g div output_fps out) = i + 1"
  shows "generator_inv g"
  using assms unfolding generator_inv_def by blast

lemma inv_supported_period:
  assumes "generator_inv g"
    and "unat f = unat (m_minSupportedFps g) * 2 ^ j"
    and "f \<le> m_maxSupportedFps g"
  shows "\<exists>k. j \<le> k \<and> unat (m_maxSupportedFps g div f) = 2 ^ (k - j)
    \<and> unat (m_counterMax g) = 2 ^ k"
proof -
  from generator_invD(2) [OF assms(1)] obtain k where
    k: "unat (m_maxSupportedFps g) = unat (m_minSupportedFps g) * 2 ^ k"
    by blast
  note pos = generator_invD(1) [OF assms(1)]
  note cm = generator_invD(3) [OF assms(1)]
  from assms(3) have "unat f \<le> unat (m_maxSupportedFps g)" by (simp add: word_le_nat_alt)
  from band_quotient [OF pos k assms(2) this] cm show ?thesis
    by (auto simp add: unat_div)
qed

lemma inv_bucket_period:
  assumes "generator_inv g" and "i < length (m_outputs g)" and "out \<in> set (m_outputs g ! i)"
  shows "unat (m_maxSupportedFps g div output_fps out) = i + 1
    \<and> i + 1 dvd unat (m_counterMax g)"
proof -
  from generator_invD(6) [OF assms] obtain j where
    j: "unat (output_fps out) = unat (m_minSupportedFps g) * 2 ^ j"
    and le: "output_fps out \<le> m_maxSupportedFps g"
    and at: "unat (m_maxSupportedFps g div output_fps out) = i + 1"
    by blast
  from inv_supported_period [OF assms(1) j le] obtain k where
    "j \<le> k" and "unat (m_maxSupportedFps g div output_fps out) = 2 ^ (k - j)"
    and "unat (m_counterMax g) = 2 ^ k"
    by blast
  with at have "i + 1 = 2 ^ (k - j)" and "unat (m_counterMax g) = 2 ^ k" by simp_all
  then have "i + 1 dvd unat (m_counterMax g)"
    by (simp add: le_imp_power_dvd)
  with at show ?thesis by simp
qed


lemma addOutput_supported:
  assumes "generator_inv g"
    and "unat f = unat (m_minSupportedFps g) * 2 ^ j"
    and "f \<le> m_maxSupportedFps g"
    and "p = unat (m_maxSupportedFps g div f)"
    and "out = \<lparr>output_width = w, output_height = h, output_fps = f, output_dest = dst\<rparr>"
    and "g1 = g\<lparr>m_outputs := (m_outputs g)[p - 1 := m_outputs g ! (p - 1) @ [out]]\<rparr>"
  shows "addOutput ndebug g w h f dst = Some (Inr (True, g1))
    \<and> 0 < p \<and> p - 1 < length (m_outputs g)
    \<and> out \<in> set (m_outputs g1 ! (p - 1))
    \<and> generator_inv g1"
proof -
  from inv_supported_period [OF assms(1-3)] obtain k where
    jk: "j \<le> k" and pk: "p = 2 ^ (k - j)" and cm: "unat (m_counterMax g) = 2 ^ k"
    using assms(4) by auto
  note pos = generator_invD(1) [OF assms(1)]
  note len = generator_invD(4) [OF assms(1)]
  have p0: "0 < p" using pk by simp
  have "(2::nat) ^ (k - j) \<le> 2 ^ k" by simp
  with pk cm len p0 have idx: "p - 1 < length (m_outputs g)" by arith
  have fpos: "0 < unat f" using assms(2) pos by simp
  then have fnz: "f \<noteq> 0" by auto
  have "unat (m_minSupportedFps g) \<le> unat (m_minSupportedFps g) * 2 ^ j" by simp
  then have "\<not> f < m_minSupportedFps g" using assms(2) by (simp add: word_less_nat_alt)
  moreover have "\<not> m_maxSupportedFps g < f" using assms(3) by simp
  moreover have "isSupported_loop (m_maxSupportedFps g) f (m_minSupportedFps g) = Some True"
    using assms(2,3) by (rule isSupported_loop_hit)
  ultimately have sup: "isSupported g w h f = Some True" by (simp add: isSupported_def)
  have "m_maxSupportedFps g div f \<noteq> 0" using p0 assms(4) by auto
  then have index: "unat (m_maxSupportedFps g div f - 1) = p - 1"
    using assms(4) by (simp add: unat_minus_one)
  have add: "addOutput ndebug g w h f dst = Some (Inr (True, g1))"
    using sup fnz index idx assms(5,6) by (simp add: addOutput_def Let_def)
  have mem: "out \<in> set (m_outputs g1 ! (p - 1))"
    using idx assms(6) by simp
  have bucket: "(\<exists>j. unat (output_fps o') = unat (m_minSupportedFps g1) * 2 ^ j)
      \<and> output_fps o' \<le> m_maxSupportedFps g1
      \<and> unat (m_maxSupportedFps g1 div output_fps o') = i + 1"
    if i: "i < length (m_outputs g1)" and o': "o' \<in> set (m_outputs g1 ! i)" for i o'
  proof (cases "o' = out \<and> i = p - 1")
    case True
    with assms(2-6) p0 show ?thesis by auto
  next
    case False
    with i o' idx assms(6) have "i < length (m_outputs g)" and "o' \<in> set (m_outputs g ! i)"
      by (auto simp add: nth_list_update split: if_splits)
    with generator_invD(6) [OF assms(1)] assms(6) show ?thesis by simp
  qed
  have inv1: "generator_inv g1"
  proof (rule generator_invI)
    show "0 < unat (m_minSupportedFps g1)" using pos assms(6) by simp
    show "\<exists>k. unat (m_maxSupportedFps g1) = unat (m_minSupportedFps g1) * 2 ^ k"
      using generator_invD(2) [OF assms(1)] assms(6) by simp
    show "m_counterMax g1 = m_maxSupportedFps g1 div m_minSupportedFps g1"
      using generator_invD(3) [OF assms(1)] assms(6) by simp
    show "length (m_outputs g1) = unat (m_counterMax g1)"
      using len assms(6) by simp
    show "unat (m_counter g1) < unat (m_counterMax g1)"
      using generator_invD(5) [OF assms(1)] assms(6) by simp
    show "(\<exists>j. unat (output_fps o') = unat (m_minSupportedFps g1) * 2 ^ j)
        \<and> output_fps o' \<le> m_maxSupportedFps g1
        \<and> unat (m_maxSupportedFps g1 div output_fps o') = i + 1"
      if "i < length (m_outputs g1)" and "o' \<in> set (m_outputs g1 ! i)" for i o'
      using that by (rule bucket)
  qed
  from add p0 idx mem inv1 show ?thesis by simp
qed

lemma counter_step:
  assumes "unat (counter :: uint32_t) < unat counterMax"
  shows "unat ((counter + 1) mod counterMax) = (unat counter + 1) mod unat counterMax"
proof -
  have "unat counterMax < 2 ^ 32" using unsigned_less [of counterMax, where 'a = nat] by simp
  with assms have "unat counter + 1 < 2 ^ 32" by simp
  then have "unat (counter + 1) = unat counter + 1" by (simp add: unat_word_ariths)
  then show ?thesis by (simp add: unat_mod)
qed

lemma onTimeout_inv:
  assumes "generator_inv g"
  shows "generator_inv (g\<lparr>m_counter := (m_counter g + 1) mod m_counterMax g\<rparr>)"
proof (rule generator_invI)
  let ?g1 = "g\<lparr>m_counter := (m_counter g + 1) mod m_counterMax g\<rparr>"
  note lt = generator_invD(5) [OF assms]
  then have "0 < unat (m_counterMax g)" by simp
  then have "(unat (m_counter g) + 1) mod unat (m_counterMax g) < unat (m_counterMax g)"
    by simp
  with counter_step [OF lt] show "unat (m_counter ?g1) < unat (m_counterMax ?g1)" by simp
  show "0 < unat (m_minSupportedFps ?g1)" using generator_invD(1) [OF assms] by simp
  show "\<exists>k. unat (m_maxSupportedFps ?g1) = unat (m_minSupportedFps ?g1) * 2 ^ k"
    using generator_invD(2) [OF assms] by simp
  show "m_counterMax ?g1 = m_maxSupportedFps ?g1 div m_minSupportedFps ?g1"
    using generator_invD(3) [OF assms] by simp
  show "length (m_outputs ?g1) = unat (m_counterMax ?g1)"
    using generator_invD(4) [OF assms] by simp
  show "(\<exists>j. unat (output_fps out) = unat (m_minSupportedFps ?g1) * 2 ^ j)
      \<and> output_fps out \<le> m_maxSupportedFps ?g1
      \<and> unat (m_maxSupportedFps ?g1 div output_fps out) = i + 1"
    if "i < length (m_outputs ?g1)" and "out \<in> set (m_outputs ?g1 ! i)" for i out
    using that generator_invD(6) [OF assms, of i out] by simp
qed

lemma due_outputs_first:
  assumes "unat (m_counter g) < unat (m_counterMax g)"
  shows "set (deliverFrame 0 (m_counter g) (m_outputs g)) = due_outputs g 0"
  using assms by (simp add: deliverFrame_set due_outputs_def)

lemma due_outputs_step:
  assumes "unat (m_counter g) < unat (m_counterMax g)"
  shows "due_outputs (g\<lparr>m_counter := (m_counter g + 1) mod m_counterMax g\<rparr>) n
    = due_outputs g (Suc n)"
proof -
  have "((unat (m_counter g) + 1) mod unat (m_counterMax g) + n) mod unat (m_counterMax g)
      = (unat (m_counter g) + Suc n) mod unat (m_counterMax g)"
    by (simp add: mod_add_left_eq)
  then show ?thesis
    unfolding due_outputs_def using counter_step [OF assms] by simp
qed

lemma ticks_run:
  assumes "generator_inv g" and "list_all (\<lambda>c. c \<noteq> None) cs"
  shows "\<exists>dss g'. ticks g cs = Inr (dss, g')
    \<and> length dss = length cs
    \<and> unat (m_counter g') = (unat (m_counter g) + length cs) mod unat (m_counterMax g)
    \<and> (\<forall>n < length cs. fst ` set (dss ! n) = due_outputs g n)"
  using assms
proof (induction cs arbitrary: g)
  case Nil
  from generator_invD(5) [OF Nil(1)] show ?case by simp
next
  case (Cons c cs)
  from Cons.prems(2) obtain frame where c: "c = Some frame"
    and rest: "list_all (\<lambda>c. c \<noteq> None) cs"
    by auto
  let ?g1 = "g\<lparr>m_counter := (m_counter g + 1) mod m_counterMax g\<rparr>"
  let ?ds = "map (\<lambda>it. (it, frame)) (deliverFrame 0 (m_counter g) (m_outputs g))"
  note lt = generator_invD(5) [OF Cons.prems(1)]
  then have nz: "m_counterMax g \<noteq> 0" by auto
  have step: "onTimeout g c = Inr (?ds, ?g1)"
    unfolding c using nz by (rule onTimeout_composite)
  have inv1: "generator_inv ?g1" using Cons.prems(1) by (rule onTimeout_inv)
  have c1: "unat (m_counter ?g1) = (unat (m_counter g) + 1) mod unat (m_counterMax g)"
    using counter_step [OF lt] by simp
  from Cons.IH [OF inv1 rest] obtain dss g' where
    run: "ticks ?g1 cs = Inr (dss, g')"
    and len: "length dss = length cs"
    and cnt: "unat (m_counter g') = (unat (m_counter ?g1) + length cs) mod unat (m_counterMax ?g1)"
    and del: "\<forall>n < length cs. fst ` set (dss ! n) = due_outputs ?g1 n"
    by blast
  have first: "fst ` set ?ds = due_outputs g 0"
    using due_outputs_first [OF lt] by (simp add: image_image)
  have all: "fst ` set ((?ds # dss) ! n) = due_outputs g n" if n: "n < length (c # cs)" for n
  proof (cases n)
    case 0
    with first show ?thesis by simp
  next
    case (Suc n')
    with n have "n' < length cs" by simp
    with del have "fst ` set (dss ! n') = due_outputs ?g1 n'" by blast
    with Suc show ?thesis by (simp add: due_outputs_step [OF lt])
  qed
  have whole: "ticks g (c # cs) = Inr (?ds # dss, g')"
    using step run by simp
  have cnt': "unat (m_counter g') = (unat (m_counter g) + length (c # cs)) mod unat (m_counterMax g)"
  proof -
    have "unat (m_counter g') =
        ((unat (m_counter g) + 1) mod unat (m_counterMax g) + length cs) mod unat (m_counterMax g)"
      using cnt c1 by simp
    also have "\<dots> = (unat (m_counter g) + length (c # cs)) mod unat (m_counterMax g)"
      by (simp add: mod_add_left_eq)
    finally show ?thesis .
  qed
  have len': "length (?ds # dss) = length (c # cs)" using len by simp
  from whole len' cnt' all show ?case by blast
qed


lemma due_outputs_period:
  assumes "generator_inv g" and "i < length (m_outputs g)" and "out \<in> set (m_outputs g ! i)"
  shows "out \<in> due_outputs g n
      \<longleftrightarrow> ((unat (m_counter g) + n) mod unat (m_counterMax g)) mod (i + 1) = 0"
    and "out \<in> due_outputs g n \<longleftrightarrow> (unat (m_counter g) + n) mod (i + 1) = 0"
proof -
  let ?t = "(unat (m_counter g) + n) mod unat (m_counterMax g)"
  from inv_bucket_period [OF assms] have
    at: "unat (m_maxSupportedFps g div output_fps out) = i + 1"
    and dvd: "i + 1 dvd unat (m_counterMax g)"
    by blast+
  have only: "i' = i" if "i' < length (m_outputs g)" and "out \<in> set (m_outputs g ! i')" for i'
  proof -
    from inv_bucket_period [OF assms(1) that]
    have "unat (m_maxSupportedFps g div output_fps out) = i' + 1" by (rule conjunct1)
    with at show ?thesis by arith
  qed
  show a: "out \<in> due_outputs g n \<longleftrightarrow> ?t mod (i + 1) = 0"
  proof
    assume "out \<in> due_outputs g n"
    then have "\<exists>i' < length (m_outputs g). out \<in> set (m_outputs g ! i') \<and> ?t mod (i' + 1) = 0"
      by (simp add: due_outputs_def)
    then obtain i' where i': "i' < length (m_outputs g)" "out \<in> set (m_outputs g ! i')"
      and z: "?t mod (i' + 1) = 0"
      by (elim exE conjE)
    from only [OF i'] have "i' = i" .
    with z show "?t mod (i + 1) = 0" by (simp only:)
  next
    assume z: "?t mod (i + 1) = 0"
    have "\<exists>i' < length (m_outputs g). out \<in> set (m_outputs g ! i') \<and> ?t mod (i' + 1) = 0"
      using assms(2,3) z by (intro exI [of _ i] conjI)
    then show "out \<in> due_outputs g n"
      by (simp add: due_outputs_def)
  qed
  have eq: "?t mod (i + 1) = (unat (m_counter g) + n) mod (i + 1)"
    using dvd by (rule mod_mod_cancel)
  show "out \<in> due_outputs g n \<longleftrightarrow> (unat (m_counter g) + n) mod (i + 1) = 0"
    unfolding a eq by (rule refl)
qed

text \<open>
  C8 (amended). In a generator whose band is an exact power of two
  (\<open>maxFps = minFps * 2 ^ k\<close>, which is what the constructor sets up when doubling does
  not wrap), an output registered at a rate \<open>f = minFps * 2 ^ j \<le> maxFps\<close> is stored in
  bucket \<open>maxFps / f - 1\<close>. Over any run of ticks on each of which a composite frame is
  produced, the counter advances by one per tick modulo \<open>maxFps / minFps\<close>, the output is
  delivered a frame exactly on the ticks where the counter is a multiple of
  \<open>p = maxFps / f\<close>, and after a delivery the next one comes exactly \<open>p\<close> ticks later.
\<close>

theorem output_delivery_period:
  assumes "generator_inv g"
    and "unat f = unat (m_minSupportedFps g) * 2 ^ j"
    and "f \<le> m_maxSupportedFps g"
    and "list_all (\<lambda>c. c \<noteq> None) cs"
    and "p = unat (m_maxSupportedFps g div f)"
    and "out = \<lparr>output_width = w, output_height = h, output_fps = f, output_dest = dst\<rparr>"
  shows "\<exists>g1 dss g2.
      addOutput ndebug g w h f dst = Some (Inr (True, g1))
    \<and> 0 < p \<and> p - 1 < length (m_outputs g)
    \<and> m_outputs g1 = (m_outputs g)[p - 1 := m_outputs g ! (p - 1) @ [out]]
    \<and> ticks g1 cs = Inr (dss, g2)
    \<and> length dss = length cs
    \<and> m_counterMax g = m_maxSupportedFps g div m_minSupportedFps g
    \<and> unat (m_counter g2) = (unat (m_counter g) + length cs) mod unat (m_counterMax g)
    \<and> (\<forall>n < length cs.
          out \<in> fst ` set (dss ! n)
          \<longleftrightarrow> ((unat (m_counter g) + n) mod unat (m_counterMax g)) mod p = 0)
    \<and> (\<forall>n i. n + p < length cs \<and> out \<in> fst ` set (dss ! n) \<longrightarrow>
          out \<in> fst ` set (dss ! (n + p))
          \<and> (0 < i \<and> i < p \<longrightarrow> out \<notin> fst ` set (dss ! (n + i))))"
proof -
  let ?g1 = "g\<lparr>m_outputs := (m_outputs g)[p - 1 := m_outputs g ! (p - 1) @ [out]]\<rparr>"
  from addOutput_supported [OF assms(1-3,5,6) refl, of ndebug] have
    add: "addOutput ndebug g w h f dst = Some (Inr (True, ?g1))"
    and p0: "0 < p" and idx: "p - 1 < length (m_outputs g)"
    and mem: "out \<in> set (m_outputs ?g1 ! (p - 1))"
    and inv1: "generator_inv ?g1"
    by simp_all
  from ticks_run [OF inv1 assms(4)] obtain dss g2 where
    run: "ticks ?g1 cs = Inr (dss, g2)"
    and len: "length dss = length cs"
    and cnt: "unat (m_counter g2) = (unat (m_counter ?g1) + length cs) mod unat (m_counterMax ?g1)"
    and del: "\<forall>n < length cs. fst ` set (dss ! n) = due_outputs ?g1 n"
    by blast
  have idx1: "p - 1 < length (m_outputs ?g1)" using idx by simp
  have pp: "p - 1 + 1 = p" using p0 by simp
  have due_cm: "out \<in> due_outputs ?g1 n
      \<longleftrightarrow> ((unat (m_counter g) + n) mod unat (m_counterMax g)) mod p = 0" for n
  proof -
    have "out \<in> due_outputs ?g1 n
      \<longleftrightarrow> ((unat (m_counter ?g1) + n) mod unat (m_counterMax ?g1)) mod (p - 1 + 1) = 0"
      using inv1 idx1 mem by (rule due_outputs_period(1))
    then show ?thesis unfolding pp by simp
  qed
  have due_p: "out \<in> due_outputs ?g1 n \<longleftrightarrow> (unat (m_counter g) + n) mod p = 0" for n
  proof -
    have "out \<in> due_outputs ?g1 n \<longleftrightarrow> (unat (m_counter ?g1) + n) mod (p - 1 + 1) = 0"
      using inv1 idx1 mem by (rule due_outputs_period(2))
    then show ?thesis unfolding pp by simp
  qed
  have exact: "\<forall>n < length cs.
          out \<in> fst ` set (dss ! n)
          \<longleftrightarrow> ((unat (m_counter g) + n) mod unat (m_counterMax g)) mod p = 0"
    using del due_cm by simp
  have exact_p: "out \<in> fst ` set (dss ! n) \<longleftrightarrow> (unat (m_counter g) + n) mod p = 0"
    if "n < length cs" for n
    using del due_p that by simp
  have next_one: "\<forall>n i. n + p < length cs \<and> out \<in> fst ` set (dss ! n) \<longrightarrow>
          out \<in> fst ` set (dss ! (n + p))
          \<and> (0 < i \<and> i < p \<longrightarrow> out \<notin> fst ` set (dss ! (n + i)))"
  proof (intro allI impI, elim conjE)
    fix n i
    assume np: "n + p < length cs" and here: "out \<in> fst ` set (dss ! n)"
    from np have "n < length cs" by simp
    with here have z: "(unat (m_counter g) + n) mod p = 0" by (simp add: exact_p)
    have "(unat (m_counter g) + (n + p)) mod p = (unat (m_counter g) + n) mod p"
      by (simp flip: add.assoc)
    with z np have there: "out \<in> fst ` set (dss ! (n + p))" by (simp add: exact_p)
    have between: "out \<notin> fst ` set (dss ! (n + i))" if i: "0 < i" "i < p"
    proof -
      from i np have ni: "n + i < length cs" by simp
      have "(unat (m_counter g) + (n + i)) mod p
          = ((unat (m_counter g) + n) mod p + i) mod p"
        by (simp add: mod_add_left_eq flip: add.assoc)
      also have "\<dots> = i" using z i by simp
      finally have "(unat (m_counter g) + (n + i)) mod p \<noteq> 0" using i by simp
      with ni show ?thesis by (simp add: exact_p)
    qed
    from there between show "out \<in> fst ` set (dss ! (n + p))
          \<and> (0 < i \<and> i < p \<longrightarrow> out \<notin> fst ` set (dss ! (n + i)))"
      by blast
  qed
  have cm: "m_counterMax g = m_maxSupportedFps g div m_minSupportedFps g"
    using assms(1) by (rule generator_invD(3))
  have cnt': "unat (m_counter g2) = (unat (m_counter g) + length cs) mod unat (m_counterMax g)"
    using cnt by simp
  have outs: "m_outputs ?g1 = (m_outputs g)[p - 1 := m_outputs g ! (p - 1) @ [out]]" by simp
  show ?thesis
    apply (rule exI [of _ ?g1], rule exI [of _ dss], rule exI [of _ g2])
    apply (intro conjI)
    by (fact add p0 idx outs run len cm cnt' exact next_one)+
qed

lemma generator_new_inv:
  assumes "0 < unat minFps" and "unat maxFps < 2 ^ 31"
    and "SoftFrameGenerator_new maxFps minFps = Some (Inr g)"
  shows "generator_inv g"
proof -
  from fps_loop_nowrap [OF assms(1,2)] obtain r j where
    r: "fps_loop maxFps minFps = Some r"
    and ur: "unat r = unat minFps * 2 ^ j"
    and ge: "unat maxFps \<le> unat r"
    by blast
  let ?maxS = "if maxFps < r then minFps else maxFps"
  have nz: "minFps \<noteq> 0" using assms(1) by auto
  have g: "g = \<lparr>m_maxSupportedFps = ?maxS, m_minSupportedFps = minFps, m_counter = 0,
             m_counterMax = ?maxS div minFps,
             m_outputs = replicate (unat (?maxS div minFps)) []\<rparr>"
    using assms(3) r nz by (simp add: SoftFrameGenerator_new_def Let_def)
  have band: "\<exists>k. unat ?maxS = unat minFps * 2 ^ k"
  proof (cases "maxFps < r")
    case True
    then have "unat ?maxS = unat minFps * 2 ^ 0" by simp
    then show ?thesis by (rule exI)
  next
    case False
    then have "unat r \<le> unat maxFps" by (simp add: word_less_nat_alt)
    with ge have "unat maxFps = unat r" by simp
    with ur False have "unat ?maxS = unat minFps * 2 ^ j" by simp
    then show ?thesis by (rule exI)
  qed
  then obtain k where k: "unat ?maxS = unat minFps * 2 ^ k" by (rule exE)
  have q: "unat (?maxS div minFps) = 2 ^ k"
    using k assms(1) by (simp only: unat_div) simp
  show ?thesis
  proof (rule generator_invI)
    show "0 < unat (m_minSupportedFps g)" using assms(1) g by simp
    show "\<exists>k. unat (m_maxSupportedFps g) = unat (m_minSupportedFps g) * 2 ^ k"
      using band g by simp
    show "m_counterMax g = m_maxSupportedFps g div m_minSupportedFps g" using g by simp
    show "length (m_outputs g) = unat (m_counterMax g)" using g by simp
    have "unat (m_counterMax g) = 2 ^ k" using q g by simp
    moreover have "unat (m_counter g) = 0" using g by simp
    ultimately show "unat (m_counter g) < unat (m_counterMax g)" by simp
    show "(\<exists>j. unat (output_fps out) = unat (m_minSupportedFps g) * 2 ^ j)
        \<and> output_fps out \<le> m_maxSupportedFps g
        \<and> unat (m_maxSupportedFps g div output_fps out) = i + 1"
      if "i < length (m_outputs g)" and "out \<in> set (m_outputs g ! i)" for i out
    proof -
      from that(1) g have "m_outputs g ! i = []" by simp
      with that(2) show ?thesis by simp
    qed
  qed
qed

lemma band_60_15_new: "SoftFrameGenerator_new 60 15 = Some (Inr band_60_15)"
  by (simp add: SoftFrameGenerator_new_def fps_loop.simps band_60_15_def replicate_buckets)

lemma band_60_15_inv: "generator_inv band_60_15"
  using band_60_15_new by (rule generator_new_inv [rotated 2]) simp_all

lemmas tick_eval =
  onTimeout_def addOutput_def isSupported_def isSupported_loop.simps output_at_def
  composite_def Let_def numeral_2_eq_2 [symmetric]

theorem output_delivery_period_witness:
  "generator_inv band_60_15
   \<and> unat (30 :: uint32_t) = unat (m_minSupportedFps band_60_15) * 2 ^ 1
   \<and> 30 \<le> m_maxSupportedFps band_60_15
   \<and> list_all (\<lambda>c. c \<noteq> None)
        [Some composite, Some composite, Some composite, Some composite, Some composite]
   \<and> 2 = unat (m_maxSupportedFps band_60_15 div 30)
   \<and> addOutput False band_60_15 640 480 30 7 =
       Some (Inr (True, band_60_15\<lparr>m_outputs := [[], [output_at 30], [], []]\<rparr>))
   \<and> ticks (band_60_15\<lparr>m_outputs := [[], [output_at 30], [], []]\<rparr>)
        [Some composite, Some composite, Some composite, Some composite, Some composite] =
       Inr ([[(output_at 30, composite)], [], [(output_at 30, composite)], [],
             [(output_at 30, composite)]],
            band_60_15\<lparr>m_outputs := [[], [output_at 30], [], []], m_counter := 1\<rparr>)"
proof -
  let ?g1 = "band_60_15\<lparr>m_outputs := [[], [output_at 30], [], []]\<rparr>"
  let ?cs = "[Some composite, Some composite, Some composite, Some composite, Some composite]"
  have h1: "unat (30 :: uint32_t) = unat (m_minSupportedFps band_60_15) * 2 ^ 1"
    by (simp add: band_60_15_def)
  have h2: "30 \<le> m_maxSupportedFps band_60_15"
    by (simp add: band_60_15_def)
  have h3: "list_all (\<lambda>c. c \<noteq> None) ?cs"
    by simp
  have h4: "2 = unat (m_maxSupportedFps band_60_15 div 30)"
    by (simp add: band_60_15_def)
  have h5: "output_at 30 =
      \<lparr>output_width = 640, output_height = 480, output_fps = 30, output_dest = 7\<rparr>"
    by (simp add: output_at_def)
  have a: "addOutput False band_60_15 640 480 30 7 = Some (Inr (True, ?g1))"
    by (simp add: tick_eval band_60_15_def)
  have t: "ticks ?g1 ?cs =
       Inr ([[(output_at 30, composite)], [], [(output_at 30, composite)], [],
             [(output_at 30, composite)]],
            band_60_15\<lparr>m_outputs := [[], [output_at 30], [], []], m_counter := 1\<rparr>)"
    by (simp add: tick_eval band_60_15_def)
  show ?thesis
    using output_delivery_period [OF band_60_15_inv h1 h2 h3 h4 h5, of False]
    apply -
    apply (intro conjI)
    apply (rule band_60_15_inv h1 h2 h3 h4 a t)+
    done
qed

text \<open>
  As the specification states it, the property fails in two ways. On a tick where no composite frame is produced
  (\<^verbatim>\<open>generateFrame\<close> returns null), nothing is delivered although the counter is a
  multiple of the period. And in the band (4026531840, 1325400064), which the
  constructor keeps because doubling wraps onto its upper end, the rate 2013265920 is
  supported with period 2 while the counter runs modulo 3: the output gets frames on
  ticks 0, 2 and 3.
\<close>

theorem output_delivery_counterexample:
  "addOutput False band_60_15 640 480 30 7 =
       Some (Inr (True, band_60_15\<lparr>m_outputs := [[], [output_at 30], [], []]\<rparr>))
   \<and> unat (m_counter (band_60_15\<lparr>m_outputs := [[], [output_at 30], [], []]\<rparr>))
         mod unat (60 div 30 :: uint32_t) = 0
   \<and> onTimeout (band_60_15\<lparr>m_outputs := [[], [output_at 30], [], []]\<rparr>)
         (None :: nat VideoFrame option) =
       Inr ([], band_60_15\<lparr>m_outputs := [[], [output_at 30], [], []], m_counter := 1\<rparr>)
   \<and> SoftFrameGenerator_new 4026531840 1325400064 = Some (Inr band_exotic)
   \<and> isSupported band_exotic 640 480 2013265920 = Some True
   \<and> addOutput False band_exotic 640 480 2013265920 7 =
       Some (Inr (True, band_exotic\<lparr>m_outputs := [[], [output_at 2013265920], []]\<rparr>))
   \<and> ticks (band_exotic\<lparr>m_outputs := [[], [output_at 2013265920], []]\<rparr>)
        [Some composite, Some composite, Some composite, Some composite] =
       Inr ([[(output_at 2013265920, composite)], [], [(output_at 2013265920, composite)],
             [(output_at 2013265920, composite)]],
            band_exotic\<lparr>m_outputs := [[], [output_at 2013265920], []], m_counter := 1\<rparr>)"
  by (simp add: tick_eval band_60_15_def band_exotic_def SoftFrameGenerator_new_def
        fps_loop.simps replicate_buckets)

end
